theory Spec2Isabelle
  imports Main "HOL-Library.Word"
begin

unbundle bit_operations_syntax

section \<open>Bytes, buffers and machine words\<close>

type_synonym byte = "8 word"
type_synonym bytes = "byte list"

text \<open>
  A C buffer is the list of its bytes.  \<open>be_word\<close> reads a byte string as a big-endian
  integer of any width, \<open>be_bytes\<close> writes a 64-bit word as its eight bytes, most
  significant first.
\<close>

definition be_word :: "bytes \<Rightarrow> 'a::len word" where
  "be_word bs = foldl (\<lambda>w b. push_bit 8 w OR ucast b) 0 bs"

definition be_bytes :: "64 word \<Rightarrow> bytes" where
  "be_bytes w = map (\<lambda>i. ucast (drop_bit (8 * (7 - i)) w)) [0..<8]"

definition xor_bytes :: "bytes \<Rightarrow> bytes \<Rightarrow> bytes" where
  "xor_bytes xs ys = map2 (XOR) xs ys"

text \<open>\<open>memcpy(dst, src, n)\<close> with \<open>n = length src\<close>: the first bytes of the
  destination are replaced, the rest stays.\<close>

definition overwrite :: "bytes \<Rightarrow> bytes \<Rightarrow> bytes" where
  "overwrite dst src = src @ drop (length src) dst"

text \<open>The conversion \<open>(int)len\<close> of a \<open>size_t\<close>: the low 32 bits, read as two's
  complement.\<close>

definition cast_int :: "nat \<Rightarrow> int" where
  "cast_int n = sint (word_of_nat n :: 32 word)"

section \<open>AES-SIV: crypto/modes/siv128.c\<close>

subsection \<open>Blocks and word access\<close>

definition SIV_LEN :: nat where
  "SIV_LEN = 16"

text \<open>
  \<open>SIV_BLOCK\<close> is a union of \<open>uint64_t word[2]\<close> and \<open>unsigned char byte[16]\<close>: the
  model keeps the sixteen bytes, and \<open>block_word\<close> is \<open>b->word[i]\<close> as a host of the given
  byte order reads it (\<open>little = True\<close> for a little-endian host).
\<close>

type_synonym SIV_BLOCK = bytes

definition block_word :: "bool \<Rightarrow> SIV_BLOCK \<Rightarrow> nat \<Rightarrow> 64 word" where
  "block_word little b i =
     (let bs = take 8 (drop (8 * i) b) in be_word (if little then rev bs else bs))"

definition block_set_word :: "bool \<Rightarrow> SIV_BLOCK \<Rightarrow> nat \<Rightarrow> 64 word \<Rightarrow> SIV_BLOCK" where
  "block_set_word little b i x =
     take (8 * i) b @ (if little then rev (be_bytes x) else be_bytes x) @ drop (8 * i + 8) b"

definition rotl8 :: "32 word \<Rightarrow> 32 word" where
  "rotl8 x = push_bit 8 x OR drop_bit 24 x"

definition rotr8 :: "32 word \<Rightarrow> 32 word" where
  "rotr8 x = drop_bit 8 x OR push_bit 24 x"

definition byteswap8 :: "64 word \<Rightarrow> 64 word" where
  "byteswap8 x =
     (let high = (ucast (drop_bit 32 x) :: 32 word);
          low = (ucast x :: 32 word);
          high' = (rotl8 high AND 0x00ff00ff) OR (rotr8 high AND 0xff00ff00);
          low' = (rotl8 low AND 0x00ff00ff) OR (rotr8 low AND 0xff00ff00)
      in push_bit 32 (ucast low' :: 64 word) OR (ucast high' :: 64 word))"

text \<open>\<open>is_endian.little\<close> is the run-time probe of the host's byte order; it is the
  first argument here.\<close>

definition siv128_getword :: "bool \<Rightarrow> SIV_BLOCK \<Rightarrow> nat \<Rightarrow> 64 word" where
  "siv128_getword little b i =
     (if little then byteswap8 (block_word little b i) else block_word little b i)"

definition siv128_putword :: "bool \<Rightarrow> SIV_BLOCK \<Rightarrow> nat \<Rightarrow> 64 word \<Rightarrow> SIV_BLOCK" where
  "siv128_putword little b i x =
     (if little then block_set_word little b i (byteswap8 x) else block_set_word little b i x)"

definition siv128_xorblock :: "bool \<Rightarrow> SIV_BLOCK \<Rightarrow> SIV_BLOCK \<Rightarrow> SIV_BLOCK" where
  "siv128_xorblock little x y =
     (let x1 = block_set_word little x 0 (block_word little x 0 XOR block_word little y 0)
      in block_set_word little x1 1 (block_word little x1 1 XOR block_word little y 1))"

definition siv128_dbl :: "bool \<Rightarrow> SIV_BLOCK \<Rightarrow> SIV_BLOCK" where
  "siv128_dbl little b =
     (let high = siv128_getword little b 0;
          low = siv128_getword little b 1;
          high_carry = high AND push_bit 63 1;
          low_carry = low AND push_bit 63 1;
          low_mask = (- (drop_bit 63 high_carry)) AND 0x87;
          high_mask = drop_bit 63 low_carry;
          high' = push_bit 1 high OR high_mask;
          low' = push_bit 1 low XOR low_mask;
          b1 = siv128_putword little b 0 high'
      in siv128_putword little b1 1 low')"

subsection \<open>The external primitives\<close>

text \<open>
  CMAC and the CTR cipher come from the EVP layer, which is not part of these sources:
  they are parameters, collected in one record together with the host's byte order.
  A handle is a value of type \<open>'m\<close> (a MAC context) or \<open>'c\<close> (a cipher context); a
  pointer that may be \<open>NULL\<close> is an \<open>option\<close>.  A call that reports failure returns
  \<open>None\<close>.
  \<^item> \<open>mac_new alg key\<close>: \<open>EVP_MAC_fetch\<close>, \<open>EVP_MAC_CTX_new\<close> and
    \<open>EVP_MAC_CTX_set_params\<close> with the cipher name and the key.
  \<^item> \<open>EVP_MAC_final m outsize\<close> returns the bytes written; their number is \<open>out_len\<close>.
  \<^item> \<open>cipher_new alg key\<close>: \<open>EVP_CIPHER_CTX_new\<close> and \<open>EVP_EncryptInit_ex\<close> with the
    cipher and the key.
  \<^item> \<open>EVP_CipherInit_ex c iv\<close>: the call that only sets the counter block.
  \<^item> \<open>EVP_EncryptUpdate c inp inl\<close> returns the bytes written to the output buffer.
  The cipher handle is re-seeded with a counter block before every use, so the model
  keeps it as the keyed cipher and does not track its stream position.
\<close>

record ('m, 'c) siv_env =
  is_little :: bool
  mac_new :: "string \<Rightarrow> bytes \<Rightarrow> 'm option"
  EVP_MAC_CTX_dup :: "'m option \<Rightarrow> 'm option"
  EVP_MAC_update :: "'m \<Rightarrow> bytes \<Rightarrow> 'm option"
  EVP_MAC_final :: "'m \<Rightarrow> nat \<Rightarrow> bytes option"
  cipher_new :: "string \<Rightarrow> bytes \<Rightarrow> 'c option"
  EVP_CipherInit_ex :: "'c option \<Rightarrow> bytes \<Rightarrow> 'c option"
  EVP_EncryptUpdate :: "'c \<Rightarrow> bytes \<Rightarrow> int \<Rightarrow> bytes option"

text \<open>Modelled from the spec: \<open>OPENSSL_cleanse\<close> (crypto/mem_clr.c, not in these
  sources) is the memory wipe of the spec's scrubbing rule: it overwrites \<open>len\<close> bytes
  of the buffer with zeros.\<close>

definition OPENSSL_cleanse :: "bytes \<Rightarrow> nat \<Rightarrow> bytes" where
  "OPENSSL_cleanse buf len = replicate len 0 @ drop len buf"

subsection \<open>The context\<close>

text \<open>\<open>struct siv128_context\<close>.  Its \<open>mac\<close> field, the fetched algorithm, is part of
  \<open>mac_new\<close>.  \<open>final_ret\<close> and \<open>crypto_ok\<close> are C \<open>int\<close>s; the budget only ever moves
  by one per call, so they are modelled as integers.\<close>

record ('m, 'c) SIV128_CONTEXT =
  d :: SIV_BLOCK
  tag :: SIV_BLOCK
  cipher_ctx :: "'c option"
  mac_ctx_init :: "'m option"
  final_ret :: int
  crypto_ok :: int

subsection \<open>S2V and the CTR layer\<close>

definition s2v_final :: "('m, 'c) siv_env \<Rightarrow> 'm \<Rightarrow> SIV_BLOCK option" where
  "s2v_final E mac_ctx =
     (case EVP_MAC_final E mac_ctx SIV_LEN of
        None \<Rightarrow> None
      | Some out \<Rightarrow> if length out \<noteq> SIV_LEN then None else Some out)"

text \<open>\<open>siv128_do_s2v_p(ctx, out, in, len)\<close>: the input buffer is the list \<open>inp\<close>, \<open>len\<close>
  its length.  The result is the context (the short branch doubles \<open>d\<close> in place) and
  the output block, \<open>None\<close> for the return value 0.\<close>

definition siv128_do_s2v_p ::
  "('m, 'c) siv_env \<Rightarrow> ('m, 'c) SIV128_CONTEXT \<Rightarrow> bytes \<Rightarrow>
     ('m, 'c) SIV128_CONTEXT \<times> SIV_BLOCK option" where
  "siv128_do_s2v_p E sctx inp =
     (let len = length inp in
      case EVP_MAC_CTX_dup E (mac_ctx_init sctx) of
        None \<Rightarrow> (sctx, None)
      | Some mac_ctx \<Rightarrow>
          if len \<ge> SIV_LEN then
            (case EVP_MAC_update E mac_ctx (take (len - SIV_LEN) inp) of
               None \<Rightarrow> (sctx, None)
             | Some m1 \<Rightarrow>
                 (let t = siv128_xorblock (is_little E) (drop (len - SIV_LEN) inp) (d sctx) in
                  case EVP_MAC_update E m1 t of
                    None \<Rightarrow> (sctx, None)
                  | Some m2 \<Rightarrow> (sctx, s2v_final E m2)))
          else
            (let t0 = (overwrite (replicate SIV_LEN 0) inp)[len := 0x80];
                 sctx' = sctx\<lparr>d := siv128_dbl (is_little E) (d sctx)\<rparr>;
                 t = siv128_xorblock (is_little E) t0 (d sctx')
             in case EVP_MAC_update E mac_ctx t of
                  None \<Rightarrow> (sctx', None)
                | Some m1 \<Rightarrow> (sctx', s2v_final E m1)))"

text \<open>\<open>siv128_do_encrypt(ctx, out, in, len, icv)\<close>: the length handed to the cipher is
  \<open>(int)len\<close>.  The result is the return value and the output buffer.\<close>

definition siv128_do_encrypt ::
  "('m, 'c) siv_env \<Rightarrow> 'c option \<Rightarrow> bytes \<Rightarrow> bytes \<Rightarrow> SIV_BLOCK \<Rightarrow> int \<times> bytes" where
  "siv128_do_encrypt E cctx out inp icv =
     (let inl = cast_int (length inp) in
      case EVP_CipherInit_ex E cctx icv of
        None \<Rightarrow> (0, out)
      | Some c \<Rightarrow>
          (case EVP_EncryptUpdate E c inp inl of
             None \<Rightarrow> (0, out)
           | Some x \<Rightarrow> (1, overwrite out x)))"

subsection \<open>The operations\<close>

text \<open>\<open>CRYPTO_siv128_init(ctx, key, klen, cbc, ctr)\<close>.  The MAC key is the first
  \<open>klen\<close> bytes of \<open>key\<close>, the cipher key starts at \<open>key + klen\<close>.  The source reads the
  name of \<open>cbc\<close> before any check, so \<open>cbc\<close> is not a \<open>NULL\<close> pointer here.  On failure
  the handles are freed.\<close>

definition CRYPTO_siv128_init ::
  "('m, 'c) siv_env \<Rightarrow> ('m, 'c) SIV128_CONTEXT \<Rightarrow> bytes option \<Rightarrow> nat \<Rightarrow> string \<Rightarrow>
     string option \<Rightarrow> int \<times> ('m, 'c) SIV128_CONTEXT" where
  "CRYPTO_siv128_init E sctx k klen cbc ctr =
     (let zero = replicate SIV_LEN (0 :: byte);
          sctx0 = sctx\<lparr>d := replicate SIV_LEN 0, cipher_ctx := None, mac_ctx_init := None\<rparr>
      in case k of
           None \<Rightarrow> (0, sctx0)
         | Some kb \<Rightarrow>
        (case ctr of
           None \<Rightarrow> (0, sctx0)
         | Some ctr_alg \<Rightarrow>
        (case mac_new E cbc (take klen kb) of
           None \<Rightarrow> (0, sctx0)
         | Some m \<Rightarrow>
        (case cipher_new E ctr_alg (drop klen kb) of
           None \<Rightarrow> (0, sctx0)
         | Some c \<Rightarrow>
        (case EVP_MAC_CTX_dup E (Some m) of
           None \<Rightarrow> (0, sctx0)
         | Some mac_ctx \<Rightarrow>
        (case EVP_MAC_update E mac_ctx zero of
           None \<Rightarrow> (0, sctx0)
         | Some m1 \<Rightarrow>
        (case EVP_MAC_final E m1 SIV_LEN of
           None \<Rightarrow> (0, sctx0)
         | Some out \<Rightarrow>
             (1, sctx0\<lparr>d := overwrite (replicate SIV_LEN 0) out,
                       cipher_ctx := Some c, mac_ctx_init := Some m,
                       final_ret := - 1, crypto_ok := 1\<rparr>))))))))"

definition CRYPTO_siv128_aad ::
  "('m, 'c) siv_env \<Rightarrow> ('m, 'c) SIV128_CONTEXT \<Rightarrow> bytes \<Rightarrow> int \<times> ('m, 'c) SIV128_CONTEXT" where
  "CRYPTO_siv128_aad E sctx aad =
     (let sctx1 = sctx\<lparr>d := siv128_dbl (is_little E) (d sctx)\<rparr> in
      case EVP_MAC_CTX_dup E (mac_ctx_init sctx1) of
        None \<Rightarrow> (0, sctx1)
      | Some mac_ctx \<Rightarrow>
          (case EVP_MAC_update E mac_ctx aad of
             None \<Rightarrow> (0, sctx1)
           | Some m1 \<Rightarrow>
               (case EVP_MAC_final E m1 SIV_LEN of
                  None \<Rightarrow> (0, sctx1)
                | Some mac_out \<Rightarrow>
                    if length mac_out \<noteq> SIV_LEN then (0, sctx1)
                    else (1, sctx1\<lparr>d := siv128_xorblock (is_little E) (d sctx1) mac_out\<rparr>))))"

text \<open>\<open>q.byte[8] &= 0x7f; q.byte[12] &= 0x7f\<close>.\<close>

definition clear_counter_bits :: "SIV_BLOCK \<Rightarrow> SIV_BLOCK" where
  "clear_counter_bits q = (q[8 := q ! 8 AND 0x7f])[12 := q ! 12 AND 0x7f]"

text \<open>\<open>CRYPTO_siv128_encrypt(ctx, in, out, len)\<close>: the result is the return value
  (\<open>len\<close> converted to \<open>int\<close> on success), the context and the output buffer.\<close>

definition CRYPTO_siv128_encrypt ::
  "('m, 'c) siv_env \<Rightarrow> ('m, 'c) SIV128_CONTEXT \<Rightarrow> bytes \<Rightarrow> bytes \<Rightarrow>
     int \<times> ('m, 'c) SIV128_CONTEXT \<times> bytes" where
  "CRYPTO_siv128_encrypt E sctx inp out =
     (if crypto_ok sctx = 0 then (0, sctx, out)
      else
        (let sctx1 = sctx\<lparr>crypto_ok := crypto_ok sctx - 1\<rparr> in
         case siv128_do_s2v_p E sctx1 inp of
           (sctx2, None) \<Rightarrow> (0, sctx2, out)
         | (sctx2, Some q) \<Rightarrow>
             (let sctx3 = sctx2\<lparr>tag := q\<rparr>;
                  q' = clear_counter_bits q
              in case siv128_do_encrypt E (cipher_ctx sctx3) out inp q' of
                   (r, out') \<Rightarrow>
                     if r = 0 then (0, sctx3, out')
                     else (cast_int (length inp), sctx3\<lparr>final_ret := 0\<rparr>, out'))))"

text \<open>The loop \<open>for (i = 0; i < SIV_LEN; i++) t.byte[i] ^= p[i]\<close>.\<close>

definition xor_tag_loop :: "SIV_BLOCK \<Rightarrow> bytes \<Rightarrow> SIV_BLOCK" where
  "xor_tag_loop t p = fold (\<lambda>i t'. t'[i := t' ! i XOR p ! i]) [0..<SIV_LEN] t"

definition CRYPTO_siv128_decrypt ::
  "('m, 'c) siv_env \<Rightarrow> ('m, 'c) SIV128_CONTEXT \<Rightarrow> bytes \<Rightarrow> bytes \<Rightarrow>
     int \<times> ('m, 'c) SIV128_CONTEXT \<times> bytes" where
  "CRYPTO_siv128_decrypt E sctx inp out =
     (if crypto_ok sctx = 0 then (0, sctx, out)
      else
        (let len = length inp;
             sctx1 = sctx\<lparr>crypto_ok := crypto_ok sctx - 1\<rparr>;
             q = clear_counter_bits (take SIV_LEN (tag sctx1))
         in case siv128_do_encrypt E (cipher_ctx sctx1) out inp q of
              (r, out1) \<Rightarrow>
                if r = 0 then (0, sctx1, out1)
                else
                  (case siv128_do_s2v_p E sctx1 (take len out1) of
                     (sctx2, None) \<Rightarrow> (0, sctx2, out1)
                   | (sctx2, Some t) \<Rightarrow>
                       (let t' = xor_tag_loop t (tag sctx2) in
                        if (block_word (is_little E) t' 0 OR block_word (is_little E) t' 1) \<noteq> 0
                        then (0, sctx2, OPENSSL_cleanse out1 len)
                        else (cast_int len, sctx2\<lparr>final_ret := 0\<rparr>, out1)))))"

definition CRYPTO_siv128_finish :: "('m, 'c) SIV128_CONTEXT \<Rightarrow> int" where
  "CRYPTO_siv128_finish sctx = final_ret sctx"

definition CRYPTO_siv128_set_tag ::
  "('m, 'c) SIV128_CONTEXT \<Rightarrow> bytes \<Rightarrow> nat \<Rightarrow> int \<times> ('m, 'c) SIV128_CONTEXT" where
  "CRYPTO_siv128_set_tag sctx tagbuf len =
     (if len \<noteq> SIV_LEN then (0, sctx)
      else (1, sctx\<lparr>tag := take len tagbuf\<rparr>))"

definition CRYPTO_siv128_get_tag ::
  "('m, 'c) SIV128_CONTEXT \<Rightarrow> bytes \<Rightarrow> nat \<Rightarrow> int \<times> bytes" where
  "CRYPTO_siv128_get_tag sctx tagbuf len =
     (if len \<noteq> SIV_LEN then (0, tagbuf)
      else (1, overwrite tagbuf (take len (tag sctx))))"

definition CRYPTO_siv128_cleanup :: "('m, 'c) SIV128_CONTEXT \<Rightarrow> int \<times> ('m, 'c) SIV128_CONTEXT" where
  "CRYPTO_siv128_cleanup sctx =
     (1, sctx\<lparr>cipher_ctx := None, mac_ctx_init := None,
              d := OPENSSL_cleanse (d sctx) SIV_LEN, tag := OPENSSL_cleanse (tag sctx) SIV_LEN,
              final_ret := - 1, crypto_ok := 1\<rparr>)"

definition CRYPTO_siv128_speed ::
  "('m, 'c) SIV128_CONTEXT \<Rightarrow> int \<Rightarrow> int \<times> ('m, 'c) SIV128_CONTEXT" where
  "CRYPTO_siv128_speed sctx arg = (1, sctx\<lparr>crypto_ok := (if arg = 1 then - 1 else 1)\<rparr>)"


subsection \<open>Calling sequences\<close>

text \<open>The calls a user makes between init and cleanup, each with its arguments; the
  output buffer of an encrypt or decrypt call is its second argument.  \<open>siv_call\<close>
  gives the return value and the context after one call, \<open>siv_calls\<close> runs a list of
  calls and collects the return values.\<close>

datatype siv_op =
    Aad bytes
  | Encrypt bytes bytes
  | Decrypt bytes bytes
  | Set_tag bytes nat
  | Get_tag bytes nat
  | Finish
  | Speed int

fun is_crypto_call :: "siv_op \<Rightarrow> bool" where
  "is_crypto_call (Encrypt inp out) = True"
| "is_crypto_call (Decrypt inp out) = True"
| "is_crypto_call c = False"

fun is_speed_call :: "siv_op \<Rightarrow> bool" where
  "is_speed_call (Speed arg) = True"
| "is_speed_call c = False"

fun siv_call ::
  "('m, 'c) siv_env \<Rightarrow> ('m, 'c) SIV128_CONTEXT \<Rightarrow> siv_op \<Rightarrow> int \<times> ('m, 'c) SIV128_CONTEXT" where
  "siv_call E sctx (Aad a) = CRYPTO_siv128_aad E sctx a"
| "siv_call E sctx (Encrypt inp out) =
     (case CRYPTO_siv128_encrypt E sctx inp out of (r, sctx', out') \<Rightarrow> (r, sctx'))"
| "siv_call E sctx (Decrypt inp out) =
     (case CRYPTO_siv128_decrypt E sctx inp out of (r, sctx', out') \<Rightarrow> (r, sctx'))"
| "siv_call E sctx (Set_tag tagbuf len) = CRYPTO_siv128_set_tag sctx tagbuf len"
| "siv_call E sctx (Get_tag tagbuf len) = (fst (CRYPTO_siv128_get_tag sctx tagbuf len), sctx)"
| "siv_call E sctx Finish = (CRYPTO_siv128_finish sctx, sctx)"
| "siv_call E sctx (Speed arg) = CRYPTO_siv128_speed sctx arg"

fun siv_calls ::
  "('m, 'c) siv_env \<Rightarrow> ('m, 'c) SIV128_CONTEXT \<Rightarrow> siv_op list \<Rightarrow>
     int list \<times> ('m, 'c) SIV128_CONTEXT" where
  "siv_calls E sctx [] = ([], sctx)"
| "siv_calls E sctx (c # cs) =
     (case siv_call E sctx c of
        (r, sctx') \<Rightarrow> (case siv_calls E sctx' cs of (rs, sctx'') \<Rightarrow> (r # rs, sctx'')))"

text \<open>The return values of the encrypt and decrypt calls of a run, in order.\<close>

definition crypto_results :: "siv_op list \<Rightarrow> int list \<Rightarrow> int list" where
  "crypto_results cs rs = map snd (filter (\<lambda>(c, r). is_crypto_call c) (zip cs rs))"

text \<open>Feeding the segments of associated data in order, stopping at the first call
  that fails.\<close>

fun aad_calls ::
  "('m, 'c) siv_env \<Rightarrow> ('m, 'c) SIV128_CONTEXT \<Rightarrow> bytes list \<Rightarrow> int \<times> ('m, 'c) SIV128_CONTEXT" where
  "aad_calls E sctx [] = (1, sctx)"
| "aad_calls E sctx (a # as) =
     (case CRYPTO_siv128_aad E sctx a of
        (r, sctx') \<Rightarrow> if r = 0 then (0, sctx') else aad_calls E sctx' as)"

text \<open>
  The two halves of the round trip.  \<open>siv_seal\<close>: init, the AAD calls, encrypt, get_tag;
  it yields the return value of encrypt, the ciphertext and the tag.  \<open>siv_open\<close>: init
  with the same key, the same AAD calls, set_tag, decrypt; it yields the return value
  of decrypt and the recovered plaintext.  Either is \<open>None\<close> when a call before the
  crypto operation returns 0, or when \<open>CRYPTO_siv128_finish\<close> does not report success
  after it.  \<open>mem\<close> is the memory the context lives in before init.
\<close>

definition siv_seal ::
  "('m, 'c) siv_env \<Rightarrow> ('m, 'c) SIV128_CONTEXT \<Rightarrow> bytes \<Rightarrow> nat \<Rightarrow> string \<Rightarrow> string \<Rightarrow>
     bytes list \<Rightarrow> bytes \<Rightarrow> bytes \<Rightarrow> bytes \<Rightarrow> (int \<times> bytes \<times> bytes) option" where
  "siv_seal E mem k klen cbc ctr aads P out tagbuf =
     (case CRYPTO_siv128_init E mem (Some k) klen cbc (Some ctr) of (r0, s0) \<Rightarrow>
      if r0 = 0 then None else
      case aad_calls E s0 aads of (r1, s1) \<Rightarrow>
      if r1 = 0 then None else
      case CRYPTO_siv128_encrypt E s1 P out of (r2, s2, out') \<Rightarrow>
      if CRYPTO_siv128_finish s2 \<noteq> 0 then None else
      case CRYPTO_siv128_get_tag s2 tagbuf SIV_LEN of (r3, T) \<Rightarrow>
      if r3 = 0 then None else Some (r2, take (length P) out', take SIV_LEN T))"

definition siv_open ::
  "('m, 'c) siv_env \<Rightarrow> ('m, 'c) SIV128_CONTEXT \<Rightarrow> bytes \<Rightarrow> nat \<Rightarrow> string \<Rightarrow> string \<Rightarrow>
     bytes list \<Rightarrow> bytes \<Rightarrow> bytes \<Rightarrow> bytes \<Rightarrow> (int \<times> bytes) option" where
  "siv_open E mem k klen cbc ctr aads C T out =
     (case CRYPTO_siv128_init E mem (Some k) klen cbc (Some ctr) of (r0, s0) \<Rightarrow>
      if r0 = 0 then None else
      case aad_calls E s0 aads of (r1, s1) \<Rightarrow>
      if r1 = 0 then None else
      case CRYPTO_siv128_set_tag s1 T (length T) of (r2, s2) \<Rightarrow>
      if r2 = 0 then None else
      case CRYPTO_siv128_decrypt E s2 C out of (r3, s3, out') \<Rightarrow>
      if CRYPTO_siv128_finish s3 \<noteq> 0 then None else Some (r3, take (length C) out'))"

text \<open>The streamed CMAC of a list of chunks, as S2V uses it: duplicate the keyed
  template, feed the chunks in order, finalise into sixteen bytes.\<close>

definition cmac_stream :: "('m, 'c) siv_env \<Rightarrow> 'm option \<Rightarrow> bytes list \<Rightarrow> SIV_BLOCK option" where
  "cmac_stream E tmpl chunks =
     (case fold (\<lambda>ch mo. Option.bind mo (\<lambda>m. EVP_MAC_update E m ch)) chunks
             (EVP_MAC_CTX_dup E tmpl) of
        None \<Rightarrow> None
      | Some m \<Rightarrow> s2v_final E m)"

subsection \<open>What the callers assume of the primitives\<close>

text \<open>
  \<open>mac_ok E m\<close>: the CMAC primitive never reports failure on the keyed template \<open>m\<close> and
  its tags have sixteen bytes.  \<open>ctr_ok E c\<close>: for every counter block, the keyed cipher
  \<open>c\<close> accepts the block, processes any input shorter than \<open>2^31\<close> bytes into as many
  bytes, and is a stream cipher: applied to its own output under the same counter block
  it returns the input.
\<close>

definition mac_ok :: "('m, 'c) siv_env \<Rightarrow> 'm \<Rightarrow> bool" where
  "mac_ok E m \<longleftrightarrow>
     EVP_MAC_CTX_dup E (Some m) \<noteq> None \<and>
     (\<forall>m' x. EVP_MAC_update E m' x \<noteq> None) \<and>
     (\<forall>m'. \<exists>t. EVP_MAC_final E m' SIV_LEN = Some t \<and> length t = SIV_LEN)"

definition ctr_ok :: "('m, 'c) siv_env \<Rightarrow> 'c \<Rightarrow> bool" where
  "ctr_ok E c \<longleftrightarrow>
     (\<forall>iv. length iv = SIV_LEN \<longrightarrow>
        (\<exists>c'. EVP_CipherInit_ex E (Some c) iv = Some c' \<and>
           (\<forall>x. length x < 2 ^ 31 \<longrightarrow>
              (\<exists>y. EVP_EncryptUpdate E c' x (int (length x)) = Some y \<and>
                   length y = length x \<and>
                   EVP_EncryptUpdate E c' y (int (length x)) = Some x))))"

subsection \<open>S2V in the spec's words\<close>

text \<open>
  The spec's S2V engine over the streamed CMAC.  \<open>s2v_absorb\<close> is step 2 for one
  segment: \<open>D \<leftarrow> 2D\<close>, \<open>T = CMAC(A)\<close>, \<open>D \<leftarrow> D XOR T\<close>.  \<open>s2v_last\<close> is step 3, the
  output for the final input, and \<open>s2v_last_d\<close> the accumulator it leaves.
\<close>

definition s2v_absorb ::
  "('m, 'c) siv_env \<Rightarrow> 'm option \<Rightarrow> SIV_BLOCK \<Rightarrow> bytes \<Rightarrow> SIV_BLOCK option" where
  "s2v_absorb E tmpl D a =
     map_option (xor_bytes (siv128_dbl (is_little E) D)) (cmac_stream E tmpl [a])"

definition s2v_last_d :: "('m, 'c) siv_env \<Rightarrow> SIV_BLOCK \<Rightarrow> bytes \<Rightarrow> SIV_BLOCK" where
  "s2v_last_d E D M = (if 16 \<le> length M then D else siv128_dbl (is_little E) D)"

definition s2v_last ::
  "('m, 'c) siv_env \<Rightarrow> 'm option \<Rightarrow> SIV_BLOCK \<Rightarrow> bytes \<Rightarrow> SIV_BLOCK option" where
  "s2v_last E tmpl D M =
     (if 16 \<le> length M
      then cmac_stream E tmpl [take (length M - 16) M, xor_bytes (drop (length M - 16) M) D]
      else cmac_stream E tmpl
             [xor_bytes (M @ 0x80 # replicate (15 - length M) 0) (siv128_dbl (is_little E) D)])"

subsection \<open>An instance of the primitives\<close>

text \<open>
  A small instance of the external primitives, to run the model on concrete inputs: a
  MAC context is the key followed by the bytes fed so far, the tag is sixteen bytes
  computed from their sum; the cipher XORs every byte with a pad byte computed from the
  key and the counter block, and refuses a negative length.
\<close>

definition demo_digest :: "bytes \<Rightarrow> bytes" where
  "demo_digest m = map (\<lambda>i. foldl (+) (of_nat i) m) [0..<16]"

definition demo_env :: "bool \<Rightarrow> (bytes, bytes) siv_env" where
  "demo_env little =
     \<lparr>is_little = little,
      mac_new = (\<lambda>alg kb. Some kb),
      EVP_MAC_CTX_dup = (\<lambda>m. m),
      EVP_MAC_update = (\<lambda>m x. Some (m @ x)),
      EVP_MAC_final = (\<lambda>m outsize. Some (take outsize (demo_digest m))),
      cipher_new = (\<lambda>alg kb. Some kb),
      EVP_CipherInit_ex = (\<lambda>c iv. map_option (\<lambda>kb. kb @ iv) c),
      EVP_EncryptUpdate = (\<lambda>c inp inl.
         if inl < 0 then None
         else Some (map (\<lambda>b. b XOR foldl (+) 1 c) (take (nat inl) inp)))\<rparr>"

definition demo_mem :: "(bytes, bytes) SIV128_CONTEXT" where
  "demo_mem = \<lparr>d = replicate 16 0xAA, tag = replicate 16 0xAA, cipher_ctx = None,
      mac_ctx_init = None, final_ret = 7, crypto_ok = 7\<rparr>"

definition demo_ctx :: "(bytes, bytes) SIV128_CONTEXT" where
  "demo_ctx = \<lparr>d = [1, 2, 3, 4, 5, 6, 7, 8, 9, 10, 11, 12, 13, 14, 15, 16],
      tag = replicate 16 0, cipher_ctx = Some [3, 4], mac_ctx_init = Some [1, 2],
      final_ret = - 1, crypto_ok = 1\<rparr>"

section \<open>KMAC: providers/common/macs/kmac_prov.c\<close>

subsection \<open>Integer types and constants\<close>

text \<open>\<open>size_t\<close> is a 64-bit unsigned word and \<open>int\<close> a 32-bit word read as two's
  complement (the LP64 data model).  A conversion between the two is written out where
  the source has one: \<open>ucast\<close> keeps the low bits, \<open>scast\<close> extends the sign.\<close>

type_synonym size_t = "64 word"
type_synonym c_int = "32 word"

definition sizeof_size_t :: nat where
  "sizeof_size_t = 8"

definition KMAC_MAX_ENCODED_HEADER_LEN :: nat where
  "KMAC_MAX_ENCODED_HEADER_LEN = 3"

definition kmac_string :: bytes where
  "kmac_string = [0x01, 0x20, 0x4B, 0x4D, 0x41, 0x43]"

subsection \<open>Encoding\<close>

text \<open>The loop of \<open>get_encode_size\<close>: \<open>while (bits && (cnt < sz)) { ++cnt; bits >>= 8; }\<close>.\<close>

function get_encode_size_loop :: "size_t \<Rightarrow> nat \<Rightarrow> nat" where
  "get_encode_size_loop bits cnt =
     (if bits \<noteq> 0 \<and> cnt < sizeof_size_t
      then get_encode_size_loop (drop_bit 8 bits) (cnt + 1)
      else cnt)"
  by pat_completeness auto
termination
  by (relation "measure (\<lambda>(bits, cnt). sizeof_size_t - cnt)") auto

declare get_encode_size_loop.simps [simp del]

definition get_encode_size :: "size_t \<Rightarrow> nat" where
  "get_encode_size bits =
     (let cnt = get_encode_size_loop bits 0 in if cnt = 0 then 1 else cnt)"

text \<open>The loop of \<open>right_encode\<close>, \<open>for (i = len - 1; i >= 0; --i)\<close>: the second argument
  is \<open>i + 1\<close>, the number of bytes still to store.\<close>

fun right_encode_loop :: "bytes \<Rightarrow> nat \<Rightarrow> size_t \<Rightarrow> bytes" where
  "right_encode_loop out 0 bits = out"
| "right_encode_loop out (Suc i) bits =
     right_encode_loop (out[i := ucast (bits AND 0xFF)]) i (drop_bit 8 bits)"

text \<open>\<open>right_encode(out, out_len, bits)\<close>: the result is the \<open>len + 1\<close> bytes the call
  stores at \<open>out[0..len]\<close>, whose number is \<open>*out_len\<close>; \<open>None\<close> is the return value 0.\<close>

definition right_encode :: "size_t \<Rightarrow> bytes option" where
  "right_encode bits =
     (let len = get_encode_size bits in
      if len > 0xFF then None
      else Some ((right_encode_loop (replicate (len + 1) 0) len bits)[len := of_nat len]))"

text \<open>
  Undefined behaviour is reported, not given a result: \<open>Stack_buffer_overrun\<close> is a store
  past the end of a local array, \<open>Memcpy_out_of_bounds\<close> a \<open>memcpy\<close> whose size is a
  negative \<open>int\<close> converted to \<open>size_t\<close>, or more than the source buffer holds.
\<close>

datatype fault = Stack_buffer_overrun | Memcpy_out_of_bounds

text \<open>The loop of \<open>encode_string\<close>, \<open>for (i = len; i > 0; --i)\<close>, on the \<open>int\<close> variable
  \<open>bits\<close>: \<open>>>=\<close> is the arithmetic shift.\<close>

fun encode_string_loop :: "bytes \<Rightarrow> nat \<Rightarrow> c_int \<Rightarrow> bytes" where
  "encode_string_loop out 0 bits = out"
| "encode_string_loop out (Suc i) bits =
     encode_string_loop (out[Suc i := ucast (bits AND 0xFF)]) i (signed_drop_bit 8 bits)"

text \<open>
  \<open>encode_string(out, out_len, in, in_len)\<close>: \<open>inp\<close> is the input pointer (\<open>None\<close> for
  \<open>NULL\<close>, else the bytes of the buffer it points to), \<open>in_len\<close> the \<open>int\<close> length.  The
  result is the bytes stored at \<open>out\<close> and \<open>*out_len\<close>; \<open>Inr None\<close> is the return value
  0.  The product \<open>8 * in_len\<close> is taken in 32 bits.  \<open>memcpy(out + len + 1, in, in_len)\<close>
  receives \<open>in_len\<close> as a \<open>size_t\<close>: for a negative \<open>in_len\<close>, or one beyond the input
  buffer, the call has no defined result.
\<close>

definition encode_string :: "bytes option \<Rightarrow> c_int \<Rightarrow> fault + (bytes \<times> c_int) option" where
  "encode_string inp in_len =
     (case inp of
        None \<Rightarrow> Inr (Some ([], 0))
      | Some s \<Rightarrow>
          (let bits = 8 * in_len;
               len = get_encode_size (scast bits)
           in if len > 0xFF then Inr None
              else
                (let hdr = encode_string_loop ((replicate (len + 1) 0)[0 := of_nat len]) len bits
                 in if sint in_len < 0 \<or> int (length s) < sint in_len
                    then Inl Memcpy_out_of_bounds
                    else Inr (Some (hdr @ take (nat (sint in_len)) s,
                                    1 + of_nat len + in_len)))))"

subsection \<open>The context and finalisation\<close>

text \<open>
  \<open>struct kmac_data_st\<close>, without the provider and digest handles: \<open>ctx\<close> is the state
  of the sponge behind \<open>EVP_MD_CTX\<close>.  The sponge is external: \<open>EVP_DigestUpdate\<close>
  absorbs bytes, \<open>EVP_DigestFinalXOF h n\<close> squeezes \<open>n\<close> bytes; each is \<open>None\<close> when the
  call reports failure.
\<close>

record 'h kmac_data_st =
  ctx :: 'h
  out_len :: size_t
  key_len :: c_int
  custom_len :: c_int
  xof_mode :: c_int
  key :: bytes
  custom :: bytes

record 'h kmac_env =
  EVP_DigestUpdate :: "'h \<Rightarrow> bytes \<Rightarrow> 'h option"
  EVP_DigestFinalXOF :: "'h \<Rightarrow> size_t \<Rightarrow> ('h \<times> bytes) option"

text \<open>
  \<open>kmac_final(vmacctx, out, outl, outsize)\<close>.  \<open>lbits\<close> is an \<open>int\<close>: the \<open>size_t\<close>
  value \<open>out_len * 8\<close> is cut to 32 bits, and widened again with its sign when it is
  passed to \<open>right_encode\<close>.  \<open>encoded_outlen\<close> has \<open>KMAC_MAX_ENCODED_HEADER_LEN\<close> bytes.
  \<open>outl\<close> is \<open>None\<close> for a \<open>NULL\<close> pointer, else the value it points to.  The result
  is the return value, the context, the output buffer and \<open>outl\<close>.
\<close>

definition kmac_final ::
  "'h kmac_env \<Rightarrow> 'h kmac_data_st \<Rightarrow> bytes \<Rightarrow> size_t option \<Rightarrow> size_t \<Rightarrow>
     fault + (int \<times> 'h kmac_data_st \<times> bytes \<times> size_t option)" where
  "kmac_final K kctx out outl outsize =
     (let lbits = (if xof_mode kctx \<noteq> 0 then 0 else ucast (out_len kctx * 8) :: c_int) in
      case right_encode (scast lbits) of
        None \<Rightarrow> Inr (0, kctx, out, outl)
      | Some encoded_outlen \<Rightarrow>
          if length encoded_outlen > KMAC_MAX_ENCODED_HEADER_LEN then Inl Stack_buffer_overrun
          else
            (case EVP_DigestUpdate K (ctx kctx) encoded_outlen of
               None \<Rightarrow> Inr (0, kctx, out, outl)
             | Some h \<Rightarrow>
                 (case EVP_DigestFinalXOF K h (out_len kctx) of
                    None \<Rightarrow> Inr (0, kctx\<lparr>ctx := h\<rparr>, out, outl)
                  | Some (h', md) \<Rightarrow>
                      Inr (1, kctx\<lparr>ctx := h'\<rparr>, overwrite out md,
                           (case outl of None \<Rightarrow> None | Some v \<Rightarrow> Some (out_len kctx))))))"

subsection \<open>The encodings in the spec's words\<close>

text \<open>
  SP 800-185 as the spec states it: \<open>byte_count_spec x\<close> is the minimum number of bytes,
  at least one, that represents \<open>x\<close>; \<open>be_digits n x\<close> are the \<open>n\<close> low base-256
  digits of \<open>x\<close>, most significant first; \<open>left_encode\<close> puts the count in front,
  \<open>right_encode\<close> behind.
\<close>

fun byte_count_spec :: "nat \<Rightarrow> nat" where
  "byte_count_spec x = (if x < 256 then 1 else 1 + byte_count_spec (x div 256))"

declare byte_count_spec.simps [simp del]

definition be_digits :: "nat \<Rightarrow> nat \<Rightarrow> bytes" where
  "be_digits n x = map (\<lambda>i. of_nat (x div 256 ^ (n - 1 - i))) [0..<n]"

definition left_encode_spec :: "nat \<Rightarrow> bytes" where
  "left_encode_spec x = of_nat (byte_count_spec x) # be_digits (byte_count_spec x) x"

definition right_encode_spec :: "nat \<Rightarrow> bytes" where
  "right_encode_spec x = be_digits (byte_count_spec x) x @ [of_nat (byte_count_spec x)]"

text \<open>A sponge that records what it absorbed and squeezes zeros, to run \<open>kmac_final\<close> on
  concrete inputs.\<close>

definition demo_sponge :: "bytes kmac_env" where
  "demo_sponge =
     \<lparr>EVP_DigestUpdate = (\<lambda>h x. Some (h @ x)),
      EVP_DigestFinalXOF = (\<lambda>h n. Some (h, replicate (unat n) 0))\<rparr>"

definition demo_kctx :: "bytes kmac_data_st" where
  "demo_kctx = \<lparr>ctx = [], out_len = 32, key_len = 0, custom_len = 0, xof_mode = 0,
      key = [], custom = []\<rparr>"

section \<open>Byte order: the word view and the byte view of a block\<close>

lemma bit_beyond: "LENGTH('a) \<le> n \<Longrightarrow> bit (w :: 'a::len word) n = False"
  by (auto dest: bit_imp_le_length)

lemma range4:
  "n < 32 \<Longrightarrow> (\<exists>m<8. n = m) \<or> (\<exists>m<8. n = 8 + m) \<or> (\<exists>m<8. n = 16 + m) \<or> (\<exists>m<8. n = 24 + m)"
  for n :: nat
  by presburger

lemma range8:
  "n < 64 \<Longrightarrow> (\<exists>m<8. n = m) \<or> (\<exists>m<8. n = 8 + m) \<or> (\<exists>m<8. n = 16 + m) \<or> (\<exists>m<8. n = 24 + m)
     \<or> (\<exists>m<8. n = 32 + m) \<or> (\<exists>m<8. n = 40 + m) \<or> (\<exists>m<8. n = 48 + m) \<or> (\<exists>m<8. n = 56 + m)"
  for n :: nat
  by presburger

lemma mask_00ff00ff: "(0x00ff00ff :: 32 word) = mask 8 OR push_bit 16 (mask 8)"
  by (simp add: mask_eq_exp_minus_1)

lemma mask_ff00ff00: "(0xff00ff00 :: 32 word) = push_bit 8 (mask 8) OR push_bit 24 (mask 8)"
  by (simp add: mask_eq_exp_minus_1)

lemma bswap32_bit:
  "bit ((rotl8 x AND 0x00ff00ff) OR (rotr8 x AND 0xff00ff00)) n \<longleftrightarrow>
     n < 32 \<and> bit x (if n < 8 then n + 24 else if n < 16 then n + 8 else if n < 24 then n - 8 else n - 24)"
proof (cases "n < 32")
  case False
  then show ?thesis by (auto dest: bit_imp_le_length)
next
  case True
  from range4[OF True] show ?thesis
    apply (elim disjE conjE exE)
    apply (simp_all add: rotl8_def rotr8_def mask_00ff00ff mask_ff00ff00 bit_simps bit_beyond ac_simps)
    done
qed

lemma be_bytes_unfold:
  "be_bytes w = [ucast (drop_bit 56 w), ucast (drop_bit 48 w), ucast (drop_bit 40 w),
     ucast (drop_bit 32 w), ucast (drop_bit 24 w), ucast (drop_bit 16 w), ucast (drop_bit 8 w), ucast w]"
  by (simp add: be_bytes_def upt_rec)

lemma length_be_bytes: "length (be_bytes w) = 8"
  by (simp add: be_bytes_def)

lemma be_word64_unfold:
  "(be_word [b0, b1, b2, b3, b4, b5, b6, b7] :: 64 word) =
     push_bit 56 (ucast b0) OR push_bit 48 (ucast b1) OR push_bit 40 (ucast b2) OR push_bit 32 (ucast b3) OR
     push_bit 24 (ucast b4) OR push_bit 16 (ucast b5) OR push_bit 8 (ucast b6) OR ucast b7"
  by (simp add: be_word_def push_bit_or ac_simps)

lemma byteswap8_bytes: "byteswap8 w = be_word (rev (be_bytes w))"
proof (rule bit_word_eqI)
  fix n assume "n < LENGTH(64)"
  then have n: "n < 64" by simp
  define F where "F = (\<lambda>x :: 32 word. (rotl8 x AND 0x00ff00ff) OR (rotr8 x AND 0xff00ff00))"
  have F: "bit (F x) k \<longleftrightarrow>
     k < 32 \<and> bit x (if k < 8 then k + 24 else if k < 16 then k + 8 else if k < 24 then k - 8 else k - 24)"
    for x k
    unfolding F_def by (rule bswap32_bit)
  have bs: "byteswap8 w = push_bit 32 (ucast (F (ucast w)) :: 64 word) OR ucast (F (ucast (drop_bit 32 w)))"
    by (simp add: byteswap8_def F_def Let_def)
  from range8[OF n] show "bit (byteswap8 w) n = bit (be_word (rev (be_bytes w)) :: 64 word) n"
    unfolding be_bytes_unfold rev.simps append.simps be_word64_unfold bs
    apply (elim disjE conjE exE)
    apply (simp_all add: bit_simps F bit_beyond ac_simps)
    done
qed

lemma be_word_be_bytes: "be_word (be_bytes w) = w"
proof (rule bit_word_eqI)
  fix n assume "n < LENGTH(64)"
  then have n: "n < 64" by simp
  from range8[OF n] show "bit (be_word (be_bytes w) :: 64 word) n = bit w n"
    unfolding be_bytes_unfold be_word64_unfold
    apply (elim disjE conjE exE)
    apply (simp_all add: bit_simps bit_beyond ac_simps)
    done
qed

lemma len8: "length bs = 8 \<Longrightarrow> \<exists>b0 b1 b2 b3 b4 b5 b6 b7. bs = [b0, b1, b2, b3, b4, b5, b6, b7]"
  by (auto simp: length_Suc_conv eval_nat_numeral)

lemma be_bytes_be_word: "length bs = 8 \<Longrightarrow> be_bytes (be_word bs) = bs"
proof -
  assume "length bs = 8"
  then obtain b0 b1 b2 b3 b4 b5 b6 b7 where bs: "bs = [b0, b1, b2, b3, b4, b5, b6, b7]" using len8 by blast
  show ?thesis unfolding bs be_bytes_unfold be_word64_unfold
    apply simp
    apply (intro conjI bit_word_eqI)
    apply (simp_all add: bit_simps bit_beyond)
    done
qed


lemma be_bytes_xor: "be_bytes (x XOR y) = xor_bytes (be_bytes x) (be_bytes y)"
  unfolding be_bytes_unfold xor_bytes_def
  apply simp
  apply (intro conjI bit_word_eqI)
  apply (simp_all add: bit_simps)
  done

lemma be_word_xor:
  "length xs = 8 \<Longrightarrow> length ys = 8 \<Longrightarrow> 
     be_bytes (be_word xs XOR be_word ys) = xor_bytes xs ys"
  by (simp add: be_bytes_xor be_bytes_be_word)

lemma rev_xor_bytes:
  "length xs = length ys \<Longrightarrow> rev (xor_bytes xs ys) = xor_bytes (rev xs) (rev ys)"
  by (simp add: xor_bytes_def rev_map zip_rev)

lemma siv128_getword_be:
  assumes "8 * i + 8 \<le> length b"
  shows "siv128_getword little b i = be_word (take 8 (drop (8 * i) b))"
proof -
  let ?bs = "take 8 (drop (8 * i) b)"
  have len: "length (rev ?bs) = 8" using assms by simp
  show ?thesis
    using be_bytes_be_word [OF len]
    by (simp add: siv128_getword_def block_word_def byteswap8_bytes)
qed

lemma siv128_putword_be:
  "siv128_putword little b i x = take (8 * i) b @ be_bytes x @ drop (8 * i + 8) b"
  by (simp add: siv128_putword_def block_set_word_def byteswap8_bytes be_bytes_be_word length_be_bytes)

lemma block_xor_word:
  assumes "8 * i + 8 \<le> length x" "8 * i + 8 \<le> length y"
  shows "block_set_word little x i (block_word little x i XOR block_word little y i) =
     take (8 * i) x @ xor_bytes (take 8 (drop (8 * i) x)) (take 8 (drop (8 * i) y)) @ drop (8 * i + 8) x"
proof -
  have l: "length (take 8 (drop (8 * i) x)) = 8" "length (take 8 (drop (8 * i) y)) = 8"
    using assms by simp_all
  then have lr: "length (rev (take 8 (drop (8 * i) x))) = 8" "length (rev (take 8 (drop (8 * i) y))) = 8"
    by simp_all
  show ?thesis
    using be_word_xor [OF l] be_word_xor [OF lr] l
    by (simp add: block_set_word_def block_word_def rev_xor_bytes)
qed

lemma xor_bytes_append:
  "length xs = length ys \<Longrightarrow> xor_bytes (xs @ xs') (ys @ ys') = xor_bytes xs ys @ xor_bytes xs' ys'"
  by (simp add: xor_bytes_def)

lemma length_xor_bytes: "length (xor_bytes xs ys) = min (length xs) (length ys)"
  by (simp add: xor_bytes_def)

lemma siv128_xorblock_bytes:
  assumes "length x = 16" "length y = 16"
  shows "siv128_xorblock little x y = xor_bytes x y"
proof -
  have x: "x = take 8 x @ drop 8 x" and y: "y = take 8 y @ drop 8 y" by simp_all
  have s0: "block_set_word little x 0 (block_word little x 0 XOR block_word little y 0)
      = xor_bytes (take 8 x) (take 8 y) @ drop 8 x"
    using block_xor_word [of 0 x y little] assms by simp
  let ?x1 = "xor_bytes (take 8 x) (take 8 y) @ drop 8 x"
  have l1: "length ?x1 = 16" using assms by (simp add: length_xor_bytes)
  have s1: "block_set_word little ?x1 1 (block_word little ?x1 1 XOR block_word little y 1)
      = xor_bytes (take 8 x) (take 8 y) @ xor_bytes (drop 8 x) (drop 8 y)"
    using block_xor_word [of 1 ?x1 y little] assms l1 by (simp add: length_xor_bytes)
  have "xor_bytes x y = xor_bytes (take 8 x @ drop 8 x) (take 8 y @ drop 8 y)" by simp
  also have "\<dots> = xor_bytes (take 8 x) (take 8 y) @ xor_bytes (drop 8 x) (drop 8 y)"
    using assms by (intro xor_bytes_append) simp
  finally show ?thesis
    unfolding siv128_xorblock_def Let_def s0 s1 by simp
qed

lemma be_word_snoc: "be_word (xs @ [x]) = push_bit 8 (be_word xs) OR ucast x"
  by (simp add: be_word_def)

lemma be_word_append:
  "(be_word (xs @ ys) :: 'a::len word) = push_bit (8 * length ys) (be_word xs) OR be_word ys"
proof (induction ys rule: rev_induct)
  case Nil
  then show ?case by (simp add: be_word_def)
next
  case (snoc y ys)
  have "(be_word (xs @ ys @ [y]) :: 'a word) = push_bit 8 (be_word (xs @ ys)) OR ucast y"
    using be_word_snoc [of "xs @ ys" y] by simp
  then show ?case
    by (simp add: snoc.IH be_word_snoc push_bit_or push_bit_push_bit ac_simps mult.commute)
qed

lemma be_word_widen:
  assumes "length bs = 8"
  shows "(be_word bs :: 128 word) = ucast (be_word bs :: 64 word)"
proof -
  obtain b0 b1 b2 b3 b4 b5 b6 b7 where bs: "bs = [b0, b1, b2, b3, b4, b5, b6, b7]" using len8 [OF assms] by blast
  have u: "be_word [b0, b1, b2, b3, b4, b5, b6, b7] =
     push_bit 56 (ucast b0) OR push_bit 48 (ucast b1) OR push_bit 40 (ucast b2) OR push_bit 32 (ucast b3) OR
     push_bit 24 (ucast b4) OR push_bit 16 (ucast b5) OR push_bit 8 (ucast b6) OR (ucast b7 :: 'b::len word)"
    by (simp add: be_word_def push_bit_or ac_simps)
  show ?thesis
    unfolding bs u
  proof (rule bit_word_eqI)
    fix n assume "n < LENGTH(128)"
    let ?L = "push_bit 56 (ucast b0) OR push_bit 48 (ucast b1) OR push_bit 40 (ucast b2) OR
      push_bit 32 (ucast b3) OR push_bit 24 (ucast b4) OR push_bit 16 (ucast b5) OR
      push_bit 8 (ucast b6) OR (ucast b7 :: 128 word)"
    let ?R = "push_bit 56 (ucast b0) OR push_bit 48 (ucast b1) OR push_bit 40 (ucast b2) OR
      push_bit 32 (ucast b3) OR push_bit 24 (ucast b4) OR push_bit 16 (ucast b5) OR
      push_bit 8 (ucast b6) OR (ucast b7 :: 64 word)"
    show "bit ?L n = bit (ucast ?R :: 128 word) n"
    proof (cases "n < 64")
      case True
      from range8 [OF True] show ?thesis
        apply (elim disjE conjE exE)
        apply (simp_all add: bit_simps bit_beyond)
        done
    next
      case False
      then obtain m where "n = 64 + m" using le_Suc_ex not_less by blast
      then show ?thesis
        by (simp add: bit_simps bit_beyond)
    qed
  qed
qed


lemma be_word128_halves:
  assumes "length xs = 8" "length ys = 8"
  shows "(be_word (xs @ ys) :: 128 word) =
     push_bit 64 (ucast (be_word xs :: 64 word)) OR ucast (be_word ys :: 64 word)"
  using assms by (simp add: be_word_append be_word_widen)

lemma top_bit_shift: "drop_bit 63 (w AND push_bit 63 1) = of_bool (bit w 63)" for w :: "64 word"
  apply (rule bit_word_eqI)
  apply (auto simp add: bit_simps)
  done

lemma low_mask_eq: "(- (of_bool c :: 64 word)) AND 0x87 = (if c then 0x87 else 0)"
  by (cases c) simp_all

lemma siv128_dbl_words:
  assumes "length b = 16"
  shows "siv128_dbl little b =
     (let high = (be_word (take 8 b) :: 64 word); low = (be_word (drop 8 b) :: 64 word)
      in be_bytes (push_bit 1 high OR of_bool (bit low 63)) @
         be_bytes (push_bit 1 low XOR (if bit high 63 then 0x87 else 0)))"
proof -
  have g0: "siv128_getword little b 0 = be_word (take 8 b)"
    using siv128_getword_be [of 0 b little] assms by simp
  have g1: "siv128_getword little b 1 = be_word (drop 8 b)"
    using siv128_getword_be [of 1 b little] assms by simp
  show ?thesis
    unfolding siv128_dbl_def Let_def g0 g1 siv128_putword_be top_bit_shift low_mask_eq
    using assms by (simp add: length_be_bytes)
qed

lemma dbl_word_identity:
  fixes H L :: "64 word"
  defines "X \<equiv> (push_bit 64 (ucast H) OR ucast L :: 128 word)"
  shows "push_bit 64 (ucast (push_bit 1 H OR of_bool (bit L 63))) OR
         ucast (push_bit 1 L XOR (if bit H 63 then 0x87 else 0)) =
         push_bit 1 X XOR (if bit X 127 then 0x87 else 0)"
proof -
  have top: "bit X 127 = bit H 63"
    by (simp add: X_def bit_simps bit_beyond)
  have c87: "(0x87 :: 128 word) = ucast (0x87 :: 64 word)" by simp
  define C where "C = (if bit H 63 then 0x87 else 0 :: 64 word)"
  have C: "(if bit X 127 then 0x87 else 0 :: 128 word) = ucast C"
    by (simp add: top C_def)
  show ?thesis
    unfolding C C_def [symmetric]
  proof (rule bit_word_eqI)
    fix n assume "n < LENGTH(128)"
    show "bit (push_bit 64 (ucast (push_bit 1 H OR of_bool (bit L 63))) OR
         ucast (push_bit 1 L XOR C) :: 128 word) n = bit (push_bit 1 X XOR ucast C) n"
    proof (cases "n < 64")
      case True
      then show ?thesis
        unfolding X_def
        apply (simp only: bit_simps)
        apply (cases n)
        apply (auto simp add: bit_beyond)
        done
    next
      case False
      then obtain m where n: "n = 64 + m" using le_Suc_ex not_less by blast
      show ?thesis
        unfolding n X_def
        apply (simp only: bit_simps)
        apply (cases m)
        apply (auto simp add: bit_beyond)
        done
    qed
  qed
qed

text \<open>
  Claim C3.  Doubling in GF(2^128): read as a big-endian 128-bit integer, the block
  becomes its left shift by one, truncated to 128 bits, with \<open>0x87\<close> XORed into the
  lowest byte exactly when bit 127 was set, on a host of either byte order; the result is
  again sixteen bytes, and the zero block doubles to the zero block.
\<close>

theorem siv128_dbl_gf128:
  assumes "length b = 16"
  shows "(be_word (siv128_dbl little b) :: 128 word) =
           push_bit 1 (be_word b) XOR (if bit (be_word b :: 128 word) 127 then 0x87 else 0)
         \<and> length (siv128_dbl little b) = 16
         \<and> siv128_dbl little (replicate 16 0) = replicate 16 0"
proof -
  let ?H = "be_word (take 8 b) :: 64 word" and ?L = "be_word (drop 8 b) :: 64 word"
  have b: "(be_word b :: 128 word) = push_bit 64 (ucast ?H) OR ucast ?L"
    using be_word128_halves [of "take 8 b" "drop 8 b"] assms by simp
  have 1: "(be_word (siv128_dbl little b) :: 128 word) =
           push_bit 1 (be_word b) XOR (if bit (be_word b :: 128 word) 127 then 0x87 else 0)"
    unfolding b dbl_word_identity [symmetric]
    using assms
    by (simp add: siv128_dbl_words Let_def be_word128_halves length_be_bytes be_word_be_bytes)
  have 2: "length (siv128_dbl little b) = 16"
    using assms by (simp add: siv128_dbl_words Let_def length_be_bytes)
  have z: "(be_word (replicate k 0) :: 64 word) = 0" for k
    by (induction k) (simp_all add: be_word_def)
  have zb: "be_bytes 0 = replicate 8 0"
    by (simp add: be_bytes_def map_replicate_const)
  have "replicate 8 (0 :: byte) @ replicate 8 0 = replicate (8 + 8) 0"
    by (simp only: replicate_add)
  then have 3: "siv128_dbl little (replicate 16 0) = replicate 16 0"
    by (simp add: siv128_dbl_words Let_def z zb)
  from 1 2 3 show ?thesis by simp
qed

theorem siv128_dbl_gf128_witness:
  "length [0x80, 0, 0, 0, 0, 0, 0, 0, 0, 0, 0, 0, 0, 0, 0, 1 :: byte] = 16 \<and>
   (be_word (siv128_dbl True [0x80, 0, 0, 0, 0, 0, 0, 0, 0, 0, 0, 0, 0, 0, 0, 1]) :: 128 word) = 0x85 \<and>
   (be_word (siv128_dbl False [0x80, 0, 0, 0, 0, 0, 0, 0, 0, 0, 0, 0, 0, 0, 0, 1]) :: 128 word) = 0x85"
  using siv128_dbl_gf128 [of "[0x80, 0, 0, 0, 0, 0, 0, 0, 0, 0, 0, 0, 0, 0, 0, 1]" True]
        siv128_dbl_gf128 [of "[0x80, 0, 0, 0, 0, 0, 0, 0, 0, 0, 0, 0, 0, 0, 0, 1]" False]
  by (simp add: be_word_def)

section \<open>AES-SIV: facts about the operations\<close>

lemma cast_int_small: "n < 2 ^ 31 \<Longrightarrow> cast_int n = int n"
  unfolding cast_int_def
  by (simp add: signed_of_nat signed_take_bit_int_eq_self)

lemma length_siv128_dbl: "length b = 16 \<Longrightarrow> length (siv128_dbl little b) = 16"
  by (simp add: siv128_dbl_words Let_def length_be_bytes)

lemma s2v_pad:
  assumes "length M < 16"
  shows "(overwrite (replicate SIV_LEN 0) M)[length M := 0x80] = M @ 0x80 # replicate (15 - length M) 0"
proof -
  have "drop (length M) (replicate 16 (0 :: byte)) = 0 # replicate (15 - length M) 0"
    using assms by (cases "16 - length M") (simp_all add: Suc_diff_Suc)
  then show ?thesis
    by (simp add: overwrite_def SIV_LEN_def list_update_append)
qed

lemma xor_tag_loop_step:
  "k \<le> length t \<Longrightarrow> length t = length p \<Longrightarrow>
     fold (\<lambda>i t'. t'[i := t' ! i XOR p ! i]) [0..<k] t = xor_bytes (take k t) (take k p) @ drop k t"
proof (induction k)
  case 0
  then show ?case by (simp add: xor_bytes_def)
next
  case (Suc k)
  then have k: "k < length t" "k < length p" by simp_all
  have "fold (\<lambda>i t'. t'[i := t' ! i XOR p ! i]) [0..<Suc k] t
      = (xor_bytes (take k t) (take k p) @ drop k t)[k := (xor_bytes (take k t) (take k p) @ drop k t) ! k XOR p ! k]"
    using Suc by simp
  also have "(xor_bytes (take k t) (take k p) @ drop k t) ! k = t ! k"
    using k by (simp add: nth_append length_xor_bytes)
  also have "(xor_bytes (take k t) (take k p) @ drop k t)[k := t ! k XOR p ! k]
      = xor_bytes (take k t) (take k p) @ (t ! k XOR p ! k) # drop (Suc k) t"
    using k by (simp add: list_update_append length_xor_bytes Cons_nth_drop_Suc [symmetric])
  also have "\<dots> = xor_bytes (take (Suc k) t) (take (Suc k) p) @ drop (Suc k) t"
    using k by (simp add: take_Suc_conv_app_nth xor_bytes_def)
  finally show ?case .
qed

lemma xor_tag_loop_bytes:
  "length t = 16 \<Longrightarrow> length p = 16 \<Longrightarrow> xor_tag_loop t p = xor_bytes t p"
  using xor_tag_loop_step [of 16 t p] by (simp add: xor_tag_loop_def SIV_LEN_def)

lemma xor_bytes_zero_iff:
  "length t = length p \<Longrightarrow> xor_bytes t p = replicate (length t) 0 \<longleftrightarrow> t = p"
proof (induction t arbitrary: p)
  case Nil
  then show ?case by (simp add: xor_bytes_def)
next
  case (Cons x t)
  then obtain y p' where p: "p = y # p'" by (cases p) auto
  have "x XOR y = 0 \<longleftrightarrow> x = y"
    by (metis xor.right_neutral xor.assoc xor_self_eq xor.left_neutral)
  with p Cons show ?case 
    by (auto simp add: xor_bytes_def)
qed

lemma be_word_zero_iff:
  assumes "length bs = 8"
  shows "(be_word bs :: 64 word) = 0 \<longleftrightarrow> bs = replicate 8 0"
proof
  assume "(be_word bs :: 64 word) = 0"
  then have "be_bytes (be_word bs) = be_bytes 0" by simp
  then show "bs = replicate 8 0"
    using be_bytes_be_word [OF assms] by (simp add: be_bytes_def map_replicate_const)
next
  have z: "(be_word (replicate k 0) :: 64 word) = 0" for k
    by (induction k) (simp_all add: be_word_def)
  assume "bs = replicate 8 0"
  then show "(be_word bs :: 64 word) = 0" using z by simp
qed

lemma block_word_zero_iff:
  assumes "8 * i + 8 \<le> length t"
  shows "block_word little t i = 0 \<longleftrightarrow> take 8 (drop (8 * i) t) = replicate 8 0"
proof -
  let ?bs = "take 8 (drop (8 * i) t)"
  have l: "length ?bs = 8" "length (rev ?bs) = 8" using assms by simp_all
  have "rev ?bs = replicate 8 0 \<longleftrightarrow> ?bs = replicate 8 0"
    by (metis rev_replicate rev_rev_ident)
  then show ?thesis
    using be_word_zero_iff [OF l(1)] be_word_zero_iff [OF l(2)]
    by (simp add: block_word_def Let_def)
qed

lemma block_words_zero_iff:
  assumes "length t = 16"
  shows "(block_word little t 0 OR block_word little t 1) = 0 \<longleftrightarrow> t = replicate 16 0"
proof -
  have t: "t = take 8 t @ drop 8 t" by simp
  have r: "replicate 16 (0 :: byte) = replicate 8 0 @ replicate 8 0"
    by (simp add: replicate_add [symmetric])
  have "t = replicate 16 0 \<longleftrightarrow> take 8 t = replicate 8 0 \<and> drop 8 t = replicate 8 0"
    using assms by (subst t, subst r) (simp del: append_take_drop_id)
  then show ?thesis
    using block_word_zero_iff [of 0 t little] block_word_zero_iff [of 1 t little] assms
    by (simp add: or_eq_0_iff)
qed

lemma cmac_stream_1:
  "cmac_stream E tmpl [x] =
     (case EVP_MAC_CTX_dup E tmpl of None \<Rightarrow> None
      | Some m \<Rightarrow> (case EVP_MAC_update E m x of None \<Rightarrow> None | Some m1 \<Rightarrow> s2v_final E m1))"
  by (simp add: cmac_stream_def split: option.splits)

lemma cmac_stream_2:
  "cmac_stream E tmpl [x, y] =
     (case EVP_MAC_CTX_dup E tmpl of None \<Rightarrow> None
      | Some m \<Rightarrow> (case EVP_MAC_update E m x of None \<Rightarrow> None
         | Some m1 \<Rightarrow> (case EVP_MAC_update E m1 y of None \<Rightarrow> None | Some m2 \<Rightarrow> s2v_final E m2)))"
  by (simp add: cmac_stream_def split: option.splits)

lemma s2v_final_step_core:
  assumes "length (d sctx) = 16"
    and "EVP_MAC_CTX_dup E (mac_ctx_init sctx) \<noteq> None"
  shows "siv128_do_s2v_p E sctx M =
     (if 16 \<le> length M
      then (sctx,
            cmac_stream E (mac_ctx_init sctx)
              [take (length M - 16) M, xor_bytes (drop (length M - 16) M) (d sctx)])
      else (sctx\<lparr>d := siv128_dbl (is_little E) (d sctx)\<rparr>,
            cmac_stream E (mac_ctx_init sctx)
              [xor_bytes (M @ 0x80 # replicate (15 - length M) 0)
                 (siv128_dbl (is_little E) (d sctx))]))"
proof (cases "16 \<le> length M")
  case True
  then have x: "siv128_xorblock (is_little E) (drop (length M - 16) M) (d sctx)
      = xor_bytes (drop (length M - 16) M) (d sctx)"
    using assms(1) by (intro siv128_xorblock_bytes) simp_all
  show ?thesis
    using True assms(2)
    by (auto simp add: siv128_do_s2v_p_def Let_def SIV_LEN_def x cmac_stream_2 split: option.splits)
next
  case False
  then have l: "length M < 16" by simp
  have x: "siv128_xorblock (is_little E) (M @ 0x80 # replicate (15 - length M) 0)
        (siv128_dbl (is_little E) (d sctx))
      = xor_bytes (M @ 0x80 # replicate (15 - length M) 0) (siv128_dbl (is_little E) (d sctx))"
    using assms(1) l by (intro siv128_xorblock_bytes) (simp_all add: length_siv128_dbl)
  show ?thesis
    using False assms(2) s2v_pad [OF l]
    by (auto simp add: siv128_do_s2v_p_def Let_def x cmac_stream_1 SIV_LEN_def split: option.splits)
qed

text \<open>
  Claim C2.  The final step of S2V, for a context whose accumulator holds sixteen bytes
  and whose MAC template can be duplicated.  With sixteen bytes of input or more the
  accumulator stays as it is and the output is the CMAC of the input's head, fed
  unmodified, followed by the last sixteen bytes XORed with the accumulator.  With less,
  the accumulator is doubled first and the output is the CMAC of the one block
  \<open>M || 0x80 || 0...\<close> XORed with the doubled accumulator.  The output is \<open>None\<close> exactly
  when the CMAC primitive fails.
\<close>

theorem siv128_do_s2v_p_final_step:
  assumes "length (d sctx) = 16"
    and "EVP_MAC_CTX_dup E (mac_ctx_init sctx) \<noteq> None"
  shows "siv128_do_s2v_p E sctx M =
     (if 16 \<le> length M
      then (sctx,
            cmac_stream E (mac_ctx_init sctx)
              [take (length M - 16) M, xor_bytes (drop (length M - 16) M) (d sctx)])
      else (sctx\<lparr>d := siv128_dbl (is_little E) (d sctx)\<rparr>,
            cmac_stream E (mac_ctx_init sctx)
              [xor_bytes (M @ 0x80 # replicate (15 - length M) 0)
                 (siv128_dbl (is_little E) (d sctx))]))"
  using assms by (rule s2v_final_step_core)

lemma demo_dbl: "siv128_dbl little [1, 2, 3, 4, 5, 6, 7, 8, 9, 10, 11, 12, 13, 14, 15, 16]
   = [2, 4, 6, 8, 10, 12, 14, 16, 18, 20, 22, 24, 26, 28, 30, 32]"
  by (cases little; simp; code_simp)

lemma demo_stream:
  "cmac_stream (demo_env little) (Some m) chunks = Some (demo_digest (m @ concat chunks))"
proof -
  have "fold (\<lambda>ch mo. Option.bind mo (\<lambda>m. EVP_MAC_update (demo_env little) m ch)) chunks (Some m')
      = Some (m' @ concat chunks)" for m'
    by (induction chunks arbitrary: m') (simp_all add: demo_env_def)
  then show ?thesis
    by (simp add: cmac_stream_def demo_env_def s2v_final_def SIV_LEN_def demo_digest_def)
qed

theorem siv128_do_s2v_p_final_step_witness:
  "siv128_do_s2v_p (demo_env True) demo_ctx [9, 8, 7] =
     (demo_ctx\<lparr>d := [2, 4, 6, 8, 10, 12, 14, 16, 18, 20, 22, 24, 26, 28, 30, 32]\<rparr>,
      Some [159, 160, 161, 162, 163, 164, 165, 166, 167, 168, 169, 170, 171, 172, 173, 174])
   \<and> siv128_do_s2v_p (demo_env True) demo_ctx
        [1, 2, 3, 4, 5, 6, 7, 8, 9, 10, 11, 12, 13, 14, 15, 16, 17, 18] =
     (demo_ctx, Some [134, 135, 136, 137, 138, 139, 140, 141, 142, 143, 144, 145, 146, 147, 148, 149])"
proof -
  have h: "length (d demo_ctx) = 16"
    "EVP_MAC_CTX_dup (demo_env True) (mac_ctx_init demo_ctx) \<noteq> None"
    by (simp_all add: demo_ctx_def demo_env_def)
  have e: "is_little (demo_env True) = True" "d demo_ctx = [1, 2, 3, 4, 5, 6, 7, 8, 9, 10, 11, 12, 13, 14, 15, 16]"
    "mac_ctx_init demo_ctx = Some [1, 2]"
    by (simp_all add: demo_ctx_def demo_env_def)
  have r: "replicate 12 (0 :: byte) = [0, 0, 0, 0, 0, 0, 0, 0, 0, 0, 0, 0]"
    by (simp add: eval_nat_numeral)
  show ?thesis
    using siv128_do_s2v_p_final_step [OF h, of "[9, 8, 7]"]
      siv128_do_s2v_p_final_step [OF h, of "[1, 2, 3, 4, 5, 6, 7, 8, 9, 10, 11, 12, 13, 14, 15, 16, 17, 18]"]
    by (simp add: e demo_dbl demo_stream xor_bytes_def demo_digest_def upt_rec r)
qed

lemma s2v_eq:
  assumes "length (d sctx) = 16"
    and "EVP_MAC_CTX_dup E (mac_ctx_init sctx) \<noteq> None"
  shows "siv128_do_s2v_p E sctx M =
     (sctx\<lparr>d := s2v_last_d E (d sctx) M\<rparr>, s2v_last E (mac_ctx_init sctx) (d sctx) M)"
  using s2v_final_step_core [OF assms, of M]
  by (simp add: s2v_last_d_def s2v_last_def)

lemma length_s2v_last_d: "length D = 16 \<Longrightarrow> length (s2v_last_d E D M) = 16"
  by (simp add: s2v_last_d_def length_siv128_dbl)

lemma cmac_stream_fold_ok:
  assumes "\<forall>m' x. EVP_MAC_update E m' x \<noteq> None"
  shows "\<exists>m1. fold (\<lambda>ch mo. Option.bind mo (\<lambda>m. EVP_MAC_update E m ch)) chunks (Some m0) = Some m1"
proof (induction chunks arbitrary: m0)
  case Nil
  then show ?case by simp
next
  case (Cons ch chunks)
  from assms obtain m' where "EVP_MAC_update E m0 ch = Some m'" by fastforce
  with Cons show ?case by simp
qed

lemma cmac_stream_ok:
  assumes "mac_ok E m"
  shows "\<exists>Q. cmac_stream E (Some m) chunks = Some Q \<and> length Q = 16"
proof -
  from assms obtain m0 where m0: "EVP_MAC_CTX_dup E (Some m) = Some m0"
    by (auto simp: mac_ok_def)
  from assms have u: "\<forall>m' x. EVP_MAC_update E m' x \<noteq> None" by (simp add: mac_ok_def)
  obtain m1 where m1: "fold (\<lambda>ch mo. Option.bind mo (\<lambda>m. EVP_MAC_update E m ch)) chunks (Some m0) = Some m1"
    using cmac_stream_fold_ok [OF u] by blast
  from assms have "\<exists>t. EVP_MAC_final E m1 SIV_LEN = Some t \<and> length t = SIV_LEN"
    by (simp add: mac_ok_def)
  then obtain t where "EVP_MAC_final E m1 SIV_LEN = Some t" "length t = SIV_LEN"
    by blast
  then show ?thesis
    by (simp add: cmac_stream_def m0 m1 s2v_final_def SIV_LEN_def)
qed

lemma s2v_last_ok:
  "mac_ok E m \<Longrightarrow> \<exists>Q. s2v_last E (Some m) D M = Some Q \<and> length Q = 16"
  by (simp add: s2v_last_def cmac_stream_ok)

lemma aad_eq:
  assumes "length (d sctx) = 16"
  shows "CRYPTO_siv128_aad E sctx a =
     (case s2v_absorb E (mac_ctx_init sctx) (d sctx) a of
        None \<Rightarrow> (0, sctx\<lparr>d := siv128_dbl (is_little E) (d sctx)\<rparr>)
      | Some D' \<Rightarrow> (1, sctx\<lparr>d := D'\<rparr>))"
proof -
  have x: "length T = 16 \<Longrightarrow> siv128_xorblock (is_little E) (siv128_dbl (is_little E) (d sctx)) T
      = xor_bytes (siv128_dbl (is_little E) (d sctx)) T" for T
    using assms by (intro siv128_xorblock_bytes) (simp_all add: length_siv128_dbl)
  show ?thesis
    by (auto simp add: CRYPTO_siv128_aad_def s2v_absorb_def cmac_stream_1 s2v_final_def Let_def
        SIV_LEN_def x split: option.splits)
qed

lemma s2v_absorb_ok:
  assumes "mac_ok E m" "length D = 16"
  shows "\<exists>D'. s2v_absorb E (Some m) D a = Some D' \<and> length D' = 16"
proof -
  obtain Q where "cmac_stream E (Some m) [a] = Some Q" "length Q = 16"
    using cmac_stream_ok [OF assms(1)] by blast
  then show ?thesis
    using assms(2) by (simp add: s2v_absorb_def length_xor_bytes length_siv128_dbl)
qed

text \<open>After any number of AAD calls only the accumulator has changed, and it is the
  same for two contexts that started with the same accumulator and the same template.\<close>

lemma aad_calls_ok:
  assumes "mac_ok E m"
  shows "mac_ctx_init sctx = Some m \<Longrightarrow> length (d sctx) = 16 \<Longrightarrow>
     \<exists>D. length D = 16 \<and> aad_calls E sctx aads = (1, sctx\<lparr>d := D\<rparr>) \<and>
       (\<forall>s'. mac_ctx_init s' = Some m \<and> d s' = d sctx \<longrightarrow> aad_calls E s' aads = (1, s'\<lparr>d := D\<rparr>))"
proof (induction aads arbitrary: sctx)
  case Nil
  then show ?case by (intro exI [of _ "d sctx"]) simp
next
  case (Cons a aads)
  obtain D1 where D1: "s2v_absorb E (Some m) (d sctx) a = Some D1" "length D1 = 16"
    using s2v_absorb_ok [OF assms Cons.prems(2)] by blast
  let ?s1 = "sctx\<lparr>d := D1\<rparr>"
  have s1: "mac_ctx_init ?s1 = Some m" "length (d ?s1) = 16"
    using Cons.prems D1 by simp_all
  from Cons.IH [OF s1] obtain D where D: "length D = 16"
    "aad_calls E ?s1 aads = (1, ?s1\<lparr>d := D\<rparr>)"
    "\<forall>s'. mac_ctx_init s' = Some m \<and> d s' = d ?s1 \<longrightarrow> aad_calls E s' aads = (1, s'\<lparr>d := D\<rparr>)"
    by blast
  have here: "aad_calls E sctx (a # aads) = (1, sctx\<lparr>d := D\<rparr>)"
    using D(2) D1 Cons.prems by (simp add: aad_eq)
  have there: "aad_calls E s' (a # aads) = (1, s'\<lparr>d := D\<rparr>)"
    if "mac_ctx_init s' = Some m \<and> d s' = d sctx" for s'
  proof -
    have "aad_calls E (s'\<lparr>d := D1\<rparr>) aads = (1, s'\<lparr>d := D1\<rparr>\<lparr>d := D\<rparr>)"
      using D(3) that by simp
    then show ?thesis
      using that D1 Cons.prems by (simp add: aad_eq)
  qed
  from D(1) here there show ?case by blast
qed

lemma overwrite_full: "length dst \<le> length src \<Longrightarrow> overwrite dst src = src"
  by (simp add: overwrite_def)

lemma take_overwrite: "take (length src) (overwrite dst src) = src"
  by (simp add: overwrite_def)

lemma init_ok:
  assumes "mac_new E cbc (take klen kb) = Some m"
    and "cipher_new E ctr (drop klen kb) = Some c"
    and "mac_ok E m"
  shows "\<exists>D0. length D0 = 16 \<and>
     (\<forall>mem. CRYPTO_siv128_init E mem (Some kb) klen cbc (Some ctr) =
        (1, mem\<lparr>d := D0, cipher_ctx := Some c, mac_ctx_init := Some m,
                  final_ret := - 1, crypto_ok := 1\<rparr>))"
proof -
  from assms(3) obtain m0 where m0: "EVP_MAC_CTX_dup E (Some m) = Some m0"
    by (auto simp: mac_ok_def)
  from assms(3) have "EVP_MAC_update E m0 (replicate SIV_LEN 0) \<noteq> None"
    by (simp add: mac_ok_def)
  then obtain m1 where m1: "EVP_MAC_update E m0 (replicate SIV_LEN 0) = Some m1" by blast
  from assms(3) have "\<exists>t. EVP_MAC_final E m1 SIV_LEN = Some t \<and> length t = SIV_LEN"
    by (simp add: mac_ok_def)
  then obtain t where t: "EVP_MAC_final E m1 SIV_LEN = Some t" "length t = SIV_LEN" by blast
  have "overwrite (replicate SIV_LEN 0) t = t"
    using t(2) by (simp add: overwrite_full)
  then have "\<forall>mem. CRYPTO_siv128_init E mem (Some kb) klen cbc (Some ctr) =
        (1, mem\<lparr>d := t, cipher_ctx := Some c, mac_ctx_init := Some m,
                  final_ret := - 1, crypto_ok := 1\<rparr>)"
    by (simp add: CRYPTO_siv128_init_def Let_def assms(1,2) m0 m1 t(1))
  with t(2) show ?thesis by (auto simp: SIV_LEN_def)
qed

text \<open>S2V touches nothing but the accumulator, and its output has sixteen bytes.\<close>

lemma s2v_frame:
  assumes "siv128_do_s2v_p E sctx M = (sctx2, r)"
  shows "sctx2 = sctx\<lparr>d := d sctx2\<rparr>"
  using assms
  by (auto simp add: siv128_do_s2v_p_def Let_def split: option.splits if_splits)

lemma s2v_length:
  assumes "siv128_do_s2v_p E sctx M = (sctx2, Some t)"
  shows "length t = 16"
  using assms
  by (auto simp add: siv128_do_s2v_p_def Let_def s2v_final_def SIV_LEN_def
      split: option.splits if_splits)

lemma clear_counter_bits_length: "length (clear_counter_bits q) = length q"
  by (simp add: clear_counter_bits_def)

lemma do_encrypt_ok:
  assumes "EVP_CipherInit_ex E cctx icv = Some c'"
    and "EVP_EncryptUpdate E c' inp (cast_int (length inp)) = Some y"
  shows "siv128_do_encrypt E cctx out inp icv = (1, overwrite out y)"
  using assms by (simp add: siv128_do_encrypt_def)

lemma encrypt_ok:
  assumes "crypto_ok sctx \<noteq> 0"
    and "mac_ctx_init sctx = Some m" "mac_ok E m"
    and "cipher_ctx sctx = Some c" "ctr_ok E c"
    and "length (d sctx) = 16" "length P < 2 ^ 31"
  shows "\<exists>Q y c'. s2v_last E (Some m) (d sctx) P = Some Q \<and> length Q = 16 \<and> length y = length P \<and>
     EVP_CipherInit_ex E (Some c) (clear_counter_bits Q) = Some c' \<and>
     EVP_EncryptUpdate E c' y (int (length P)) = Some P \<and>
     CRYPTO_siv128_encrypt E sctx P out =
       (int (length P),
        sctx\<lparr>crypto_ok := crypto_ok sctx - 1, d := s2v_last_d E (d sctx) P, tag := Q, final_ret := 0\<rparr>,
        overwrite out y)"
proof -
  obtain Q where Q: "s2v_last E (Some m) (d sctx) P = Some Q" "length Q = 16"
    using s2v_last_ok [OF assms(3)] by blast
  let ?s1 = "sctx\<lparr>crypto_ok := crypto_ok sctx - 1\<rparr>"
  have dup: "EVP_MAC_CTX_dup E (mac_ctx_init ?s1) \<noteq> None"
    using assms(2,3) by (simp add: mac_ok_def)
  have s2v: "siv128_do_s2v_p E ?s1 P = (?s1\<lparr>d := s2v_last_d E (d sctx) P\<rparr>, Some Q)"
    using s2v_eq [of ?s1 E P] dup assms(2,6) Q by simp
  have "length (clear_counter_bits Q) = SIV_LEN"
    using Q(2) by (simp add: clear_counter_bits_length SIV_LEN_def)
  with assms(5) obtain c' where c': "EVP_CipherInit_ex E (Some c) (clear_counter_bits Q) = Some c'"
    and upd: "\<forall>x. length x < 2 ^ 31 \<longrightarrow>
              (\<exists>y. EVP_EncryptUpdate E c' x (int (length x)) = Some y \<and>
                   length y = length x \<and>
                   EVP_EncryptUpdate E c' y (int (length x)) = Some x)"
    unfolding ctr_ok_def by blast
  from upd assms(7) obtain y where y: "EVP_EncryptUpdate E c' P (int (length P)) = Some y"
    "length y = length P" "EVP_EncryptUpdate E c' y (int (length P)) = Some P"
    by blast
  have enc: "siv128_do_encrypt E (Some c) out P (clear_counter_bits Q) = (1, overwrite out y)"
    using c' y(1) assms(7) by (intro do_encrypt_ok) (simp_all add: cast_int_small)
  have "CRYPTO_siv128_encrypt E sctx P out =
       (int (length P),
        sctx\<lparr>crypto_ok := crypto_ok sctx - 1, d := s2v_last_d E (d sctx) P, tag := Q, final_ret := 0\<rparr>,
        overwrite out y)"
    using assms(1,4,7) by (simp add: CRYPTO_siv128_encrypt_def Let_def s2v enc cast_int_small)
  with Q c' y show ?thesis by blast
qed

text \<open>Decrypt once the CTR layer and S2V have both returned: the comparison of the
  recomputed value with the stored tag decides.\<close>

lemma decrypt_compare:
  assumes "crypto_ok sctx \<noteq> 0" "length (tag sctx) = 16"
    and "siv128_do_encrypt E (cipher_ctx sctx) out inp (clear_counter_bits (tag sctx)) = (1, out1)"
    and "siv128_do_s2v_p E (sctx\<lparr>crypto_ok := crypto_ok sctx - 1\<rparr>) (take (length inp) out1)
           = (sctx2, Some t)"
  shows "CRYPTO_siv128_decrypt E sctx inp out =
     (if t = tag sctx
      then (cast_int (length inp), sctx2\<lparr>final_ret := 0\<rparr>, out1)
      else (0, sctx2, OPENSSL_cleanse out1 (length inp)))"
proof -
  have lt: "length t = 16" using s2v_length [OF assms(4)] .
  have s2: "sctx2 = sctx\<lparr>crypto_ok := crypto_ok sctx - 1\<rparr>\<lparr>d := d sctx2\<rparr>"
    using s2v_frame [OF assms(4)] .
  have tg: "tag sctx2 = tag sctx" by (subst s2) simp
  have x: "xor_tag_loop t (tag sctx) = xor_bytes t (tag sctx)"
    using lt assms(2) by (rule xor_tag_loop_bytes)
  have lx: "length (xor_bytes t (tag sctx)) = 16"
    using lt assms(2) by (simp add: length_xor_bytes)
  have z: "(block_word (is_little E) (xor_bytes t (tag sctx)) 0 OR
            block_word (is_little E) (xor_bytes t (tag sctx)) (Suc 0)) = 0 \<longleftrightarrow> t = tag sctx"
    using block_words_zero_iff [OF lx] xor_bytes_zero_iff [of t "tag sctx"] lt assms(2)
    by simp
  show ?thesis
    using assms(1,2)
    by (simp add: CRYPTO_siv128_decrypt_def Let_def SIV_LEN_def assms(3,4) tg x z)
qed

lemma decrypt_ok:
  assumes "crypto_ok sctx \<noteq> 0" "length (tag sctx) = 16"
    and "mac_ctx_init sctx = Some m" "mac_ok E m" "length (d sctx) = 16"
    and "EVP_CipherInit_ex E (cipher_ctx sctx) (clear_counter_bits (tag sctx)) = Some c'"
    and "EVP_EncryptUpdate E c' C (cast_int (length C)) = Some P" "length P = length C"
    and "s2v_last E (Some m) (d sctx) P = Some (tag sctx)"
  shows "CRYPTO_siv128_decrypt E sctx C out =
     (cast_int (length C),
      sctx\<lparr>crypto_ok := crypto_ok sctx - 1, d := s2v_last_d E (d sctx) P, final_ret := 0\<rparr>,
      overwrite out P)"
proof -
  let ?s1 = "sctx\<lparr>crypto_ok := crypto_ok sctx - 1\<rparr>"
  have enc: "siv128_do_encrypt E (cipher_ctx sctx) out C (clear_counter_bits (tag sctx))
      = (1, overwrite out P)"
    using assms(6,7) by (rule do_encrypt_ok)
  have tk: "take (length C) (overwrite out P) = P"
    using take_overwrite [of P out] assms(8) by simp
  have dup: "EVP_MAC_CTX_dup E (mac_ctx_init ?s1) \<noteq> None"
    using assms(3,4) by (simp add: mac_ok_def)
  have s2v: "siv128_do_s2v_p E ?s1 (take (length C) (overwrite out P))
      = (?s1\<lparr>d := s2v_last_d E (d sctx) P\<rparr>, Some (tag sctx))"
    using s2v_eq [of ?s1 E P] dup assms(3,5,9) by (simp add: tk)
  show ?thesis
    using decrypt_compare [OF assms(1,2) enc s2v] by simp
qed

lemma siv_round_trip_core:
  assumes "mac_new E cbc (take klen kb) = Some m" "mac_ok E m"
    and "cipher_new E ctr (drop klen kb) = Some c" "ctr_ok E c"
    and "length P < 2 ^ 31"
  shows "\<exists>C T. siv_seal E mem kb klen cbc ctr aads P out tagbuf = Some (int (length P), C, T) \<and>
           length C = length P \<and> length T = 16 \<and>
           siv_open E mem' kb klen cbc ctr aads C T out' = Some (int (length P), P)"
proof -
  obtain D0 where D0: "length D0 = 16"
    and init: "\<And>mem. CRYPTO_siv128_init E mem (Some kb) klen cbc (Some ctr) =
        (1, mem\<lparr>d := D0, cipher_ctx := Some c, mac_ctx_init := Some m,
                  final_ret := - 1, crypto_ok := 1\<rparr>)"
    using init_ok [OF assms(1,3,2)] by blast
  let ?s0 = "mem\<lparr>d := D0, cipher_ctx := Some c, mac_ctx_init := Some m,
                  final_ret := - 1, crypto_ok := 1\<rparr>"
  let ?s0' = "mem'\<lparr>d := D0, cipher_ctx := Some c, mac_ctx_init := Some m,
                  final_ret := - 1, crypto_ok := 1\<rparr>"
  have "mac_ctx_init ?s0 = Some m" "length (d ?s0) = 16" using D0 by simp_all
  from aad_calls_ok [OF assms(2) this, of aads]
  obtain D where D: "length D = 16" "aad_calls E ?s0 aads = (1, ?s0\<lparr>d := D\<rparr>)"
    and D': "\<And>s'. mac_ctx_init s' = Some m \<Longrightarrow> d s' = D0 \<Longrightarrow> aad_calls E s' aads = (1, s'\<lparr>d := D\<rparr>)"
    by auto
  have aad': "aad_calls E ?s0' aads = (1, ?s0'\<lparr>d := D\<rparr>)"
    by (rule D') simp_all
  let ?s1 = "?s0\<lparr>d := D\<rparr>" and ?s1' = "?s0'\<lparr>d := D\<rparr>"
  have "crypto_ok ?s1 \<noteq> 0" "mac_ctx_init ?s1 = Some m" "cipher_ctx ?s1 = Some c" "length (d ?s1) = 16"
    using D(1) by simp_all
  from encrypt_ok [OF this(1,2) assms(2) this(3) assms(4) this(4) assms(5), of out]
  obtain Q y c' where Q: "s2v_last E (Some m) D P = Some Q" "length Q = 16"
    and y: "length y = length P"
    and c': "EVP_CipherInit_ex E (Some c) (clear_counter_bits Q) = Some c'"
    and yP: "EVP_EncryptUpdate E c' y (int (length P)) = Some P"
    and enc: "CRYPTO_siv128_encrypt E ?s1 P out =
       (int (length P),
        ?s1\<lparr>crypto_ok := crypto_ok ?s1 - 1, d := s2v_last_d E (d ?s1) P, tag := Q, final_ret := 0\<rparr>,
        overwrite out y)"
    by auto
  have tq: "take 16 (overwrite tagbuf (take 16 Q)) = Q"
    using take_overwrite [of Q tagbuf] Q(2) by simp
  have ty: "take (length P) (overwrite out y) = y"
    using take_overwrite [of y out] y by simp
  have seal: "siv_seal E mem kb klen cbc ctr aads P out tagbuf = Some (int (length P), y, Q)"
    using D(2) enc
    by (simp add: siv_seal_def init CRYPTO_siv128_finish_def CRYPTO_siv128_get_tag_def
        SIV_LEN_def tq ty)
  let ?s2' = "?s1'\<lparr>tag := Q\<rparr>"
  have set: "CRYPTO_siv128_set_tag ?s1' Q (length Q) = (1, ?s2')"
    using Q(2) by (simp add: CRYPTO_siv128_set_tag_def SIV_LEN_def)
  have ciP: "cast_int (length P) = int (length P)"
    using assms(5) by (rule cast_int_small)
  have ci: "cast_int (length y) = int (length P)"
    using y ciP by simp
  have dec: "CRYPTO_siv128_decrypt E ?s2' y out' =
     (cast_int (length y),
      ?s2'\<lparr>crypto_ok := crypto_ok ?s2' - 1, d := s2v_last_d E (d ?s2') P, final_ret := 0\<rparr>,
      overwrite out' P)"
    using Q D(1) c' yP y assms(2)
    by (intro decrypt_ok [where m = m and c' = c']) (simp_all add: ci ciP)
  have tp: "take (length y) (overwrite out' P) = P"
    using take_overwrite [of P out'] y by simp
  have "siv_open E mem' kb klen cbc ctr aads y Q out' = Some (int (length P), P)"
    using aad' set dec
    by (simp add: siv_open_def init CRYPTO_siv128_finish_def ci tp)
  with seal y Q(2) show ?thesis by blast
qed

lemma demo_mac_ok: "mac_ok (demo_env little) m"
  by (simp add: mac_ok_def demo_env_def demo_digest_def SIV_LEN_def)

lemma xor_twice: "(b XOR k) XOR k = b" for b k :: byte
  by (simp add: xor.assoc)

lemma demo_ctr_ok: "ctr_ok (demo_env little) c"
  by (simp add: ctr_ok_def demo_env_def SIV_LEN_def comp_def xor_twice)

lemma demo_new:
  "mac_new (demo_env little) cbc kb = Some kb" "cipher_new (demo_env little) ctr kb = Some kb"
  by (simp_all add: demo_env_def)

text \<open>
  Claim C1, as amended.  For every key, split at any offset \<open>klen\<close> (the half of a key
  of even length among them), every list of AAD segments and every plaintext of fewer
  than \<open>2^31\<close> bytes: when the CMAC and CTR primitives do not fail and CTR is a stream
  cipher, init, the AAD calls, encrypt and get_tag yield a ciphertext of the plaintext's
  length and a sixteen-byte tag; and on a second context, init with the same key, the
  same AAD calls, set_tag with that tag and decrypt of that ciphertext report success
  through \<open>CRYPTO_siv128_finish\<close> and leave exactly the plaintext in the output buffer.
  Both crypto calls return the length.
\<close>

theorem siv_round_trip:
  assumes "mac_new E cbc (take klen kb) = Some m" "mac_ok E m"
    and "cipher_new E ctr (drop klen kb) = Some c" "ctr_ok E c"
    and "length P < 2 ^ 31"
  shows "\<exists>C T. siv_seal E mem kb klen cbc ctr aads P out tagbuf = Some (int (length P), C, T) \<and>
           length C = length P \<and> length T = 16 \<and>
           siv_open E mem' kb klen cbc ctr aads C T out' = Some (int (length P), P)"
  using assms by (rule siv_round_trip_core)

theorem siv_round_trip_witness:
  "\<exists>C T. siv_seal (demo_env True) demo_mem [1, 2, 3, 4] (length [1, 2, 3, 4 :: byte] div 2)
            ''AES-128-CBC'' ''AES-128-CTR'' [[1, 2], [], [3]] [9, 8, 7] [0, 0, 0] (replicate 16 0)
          = Some (3, C, T) \<and>
         length C = length [9, 8, 7 :: byte] \<and> length T = 16 \<and>
         siv_open (demo_env True) demo_ctx [1, 2, 3, 4] (length [1, 2, 3, 4 :: byte] div 2)
            ''AES-128-CBC'' ''AES-128-CTR'' [[1, 2], [], [3]] C T [5, 5, 5] = Some (3, [9, 8, 7])"
proof -
  have "length [9, 8, 7 :: byte] < 2 ^ 31" by simp
  from siv_round_trip [where E = "demo_env True" and cbc = "''AES-128-CBC''"
      and ctr = "''AES-128-CTR''" and kb = "[1, 2, 3, 4]" and klen = "length [1, 2, 3, 4 :: byte] div 2"
      and mem = demo_mem and mem' = demo_ctx and aads = "[[1, 2], [], [3]]" and out = "[0, 0, 0]"
      and tagbuf = "replicate 16 0" and out' = "[5, 5, 5]",
      OF demo_new(1) demo_mac_ok demo_new(2) demo_ctr_ok this]
  show ?thesis by simp
qed

text \<open>The claim as stated fails for a plaintext of \<open>2^31\<close> bytes: \<open>(int)len\<close> is
  negative, the cipher refuses the length, and encrypt returns 0 without reporting
  success.\<close>

lemma encrypt_cipher_refuses:
  assumes "crypto_ok sctx \<noteq> 0" "mac_ctx_init sctx = Some m" "mac_ok E m" "length (d sctx) = 16"
    and "\<forall>q. siv128_do_encrypt E (cipher_ctx sctx) out P q = (0, out)"
  shows "\<exists>sctx'. CRYPTO_siv128_encrypt E sctx P out = (0, sctx', out) \<and>
           final_ret sctx' = final_ret sctx"
proof -
  let ?s1 = "sctx\<lparr>crypto_ok := crypto_ok sctx - 1\<rparr>"
  obtain Q where Q: "s2v_last E (Some m) (d sctx) P = Some Q"
    using s2v_last_ok [OF assms(3)] by blast
  have dup: "EVP_MAC_CTX_dup E (mac_ctx_init ?s1) \<noteq> None"
    using assms(2,3) by (simp add: mac_ok_def)
  have s2v: "siv128_do_s2v_p E ?s1 P = (?s1\<lparr>d := s2v_last_d E (d sctx) P\<rparr>, Some Q)"
    using s2v_eq [of ?s1 E P] dup assms(2,4) Q by simp
  show ?thesis
    using assms(1,5) by (simp add: CRYPTO_siv128_encrypt_def Let_def s2v)
qed

lemma demo_refuses_negative:
  assumes "cast_int (length P) < 0"
  shows "siv128_do_encrypt (demo_env little) (Some c) out P q = (0, out)"
  using assms by (simp add: siv128_do_encrypt_def demo_env_def)

theorem siv_round_trip_counterexample:
  "siv_seal (demo_env True) demo_mem [1, 2, 3, 4] 2 ''AES-128-CBC'' ''AES-128-CTR'' []
     (replicate (2 ^ 31) 0) (replicate (2 ^ 31) 0) (replicate 16 0) = None"
proof -
  let ?E = "demo_env True" and ?P = "replicate (2 ^ 31) (0 :: byte)"
  obtain D0 where D0: "length D0 = 16"
    and init: "\<And>mem. CRYPTO_siv128_init ?E mem (Some [1, 2, 3, 4]) 2 ''AES-128-CBC'' (Some ''AES-128-CTR'') =
        (1, mem\<lparr>d := D0, cipher_ctx := Some [3, 4], mac_ctx_init := Some [1, 2],
                  final_ret := - 1, crypto_ok := 1\<rparr>)"
    using init_ok [where E = ?E and cbc = "''AES-128-CBC''" and klen = 2 and kb = "[1, 2, 3, 4]"
        and m = "[1, 2]" and ctr = "''AES-128-CTR''" and c = "[3, 4]"]
      demo_mac_ok [of True "[1, 2]"]
    by (auto simp add: demo_new)
  let ?s0 = "demo_mem\<lparr>d := D0, cipher_ctx := Some [3, 4], mac_ctx_init := Some [1, 2],
                  final_ret := - 1, crypto_ok := 1\<rparr>"
  have neg: "cast_int (length ?P) < 0"
    by (simp add: cast_int_def)
  have "\<forall>q. siv128_do_encrypt ?E (cipher_ctx ?s0) ?P ?P q = (0, ?P)"
    using demo_refuses_negative [OF neg] by simp
  from encrypt_cipher_refuses [where sctx = ?s0 and m = "[1, 2]" and E = ?E and P = ?P and out = ?P,
      OF _ _ demo_mac_ok _ this] D0
  obtain sctx' where "CRYPTO_siv128_encrypt ?E ?s0 ?P ?P = (0, sctx', ?P)" "final_ret sctx' = - 1"
    by auto
  then show ?thesis
    by (simp add: siv_seal_def init CRYPTO_siv128_finish_def)
qed

lemma take_cleanse: "take len (OPENSSL_cleanse buf len) = replicate len 0"
  by (simp add: OPENSSL_cleanse_def)

text \<open>
  Claim C6.  Decrypt on a context whose budget is not spent and whose stored tag has
  sixteen bytes: when the CTR layer has produced the candidate plaintext in the output
  buffer and S2V has recomputed a value over it, and that value differs from the stored
  tag, then decrypt returns 0, the \<open>len\<close> bytes of the output buffer that held the
  candidate are zero on return, and \<open>final_ret\<close> is what it was before the call: a
  context that was undecided (\<open>- 1\<close>) remains undecided.
\<close>

theorem siv128_decrypt_auth_failure:
  assumes "crypto_ok sctx \<noteq> 0" "length (tag sctx) = 16"
    and "siv128_do_encrypt E (cipher_ctx sctx) out inp (clear_counter_bits (tag sctx)) = (1, out1)"
    and "siv128_do_s2v_p E (sctx\<lparr>crypto_ok := crypto_ok sctx - 1\<rparr>) (take (length inp) out1)
           = (sctx2, Some t)"
    and "t \<noteq> tag sctx"
  shows "CRYPTO_siv128_decrypt E sctx inp out = (0, sctx2, OPENSSL_cleanse out1 (length inp)) \<and>
         take (length inp) (OPENSSL_cleanse out1 (length inp)) = replicate (length inp) 0 \<and>
         CRYPTO_siv128_finish sctx2 = final_ret sctx \<and>
         (final_ret sctx = - 1 \<longrightarrow> CRYPTO_siv128_finish sctx2 = - 1)"
proof -
  have s2: "sctx2 = sctx\<lparr>crypto_ok := crypto_ok sctx - 1\<rparr>\<lparr>d := d sctx2\<rparr>"
    using s2v_frame [OF assms(4)] .
  have "final_ret sctx2 = final_ret sctx"
    by (subst s2) simp
  then show ?thesis
    using decrypt_compare [OF assms(1-4)] assms(5)
    by (simp add: take_cleanse CRYPTO_siv128_finish_def)
qed


lemma demo_ctx_fields:
  "d demo_ctx = [1, 2, 3, 4, 5, 6, 7, 8, 9, 10, 11, 12, 13, 14, 15, 16]"
  "tag demo_ctx = replicate 16 0" "cipher_ctx demo_ctx = Some [3, 4]"
  "mac_ctx_init demo_ctx = Some [1, 2]" "final_ret demo_ctx = - 1" "crypto_ok demo_ctx = 1"
  by (simp_all add: demo_ctx_def)

lemma zeros16: "replicate 16 (0 :: byte) = [0, 0, 0, 0, 0, 0, 0, 0, 0, 0, 0, 0, 0, 0, 0, 0]"
  by (simp add: eval_nat_numeral)

lemma zeros12: "replicate 12 (0 :: byte) = [0, 0, 0, 0, 0, 0, 0, 0, 0, 0, 0, 0]"
  by (simp add: eval_nat_numeral)

lemma demo_candidate:
  "siv128_do_encrypt (demo_env True) (cipher_ctx demo_ctx) [7, 7, 7, 7] [1, 2, 3]
     (clear_counter_bits (tag demo_ctx)) = (1, [9, 10, 11, 7])"
  by (simp add: siv128_do_encrypt_def demo_env_def demo_ctx_fields zeros16 clear_counter_bits_def
      cast_int_def overwrite_def)

lemma demo_recomputed:
  "siv128_do_s2v_p (demo_env True) (demo_ctx\<lparr>crypto_ok := crypto_ok demo_ctx - 1\<rparr>)
     (take (length [1, 2, 3 :: byte]) [9, 10, 11, 7]) =
   (demo_ctx\<lparr>crypto_ok := 0, d := [2, 4, 6, 8, 10, 12, 14, 16, 18, 20, 22, 24, 26, 28, 30, 32]\<rparr>,
    Some [173, 174, 175, 176, 177, 178, 179, 180, 181, 182, 183, 184, 185, 186, 187, 188])"
proof -
  let ?s1 = "demo_ctx\<lparr>crypto_ok := crypto_ok demo_ctx - 1\<rparr>"
  have h: "length (d ?s1) = 16" "EVP_MAC_CTX_dup (demo_env True) (mac_ctx_init ?s1) \<noteq> None"
    by (simp_all add: demo_ctx_fields demo_env_def)
  have e: "is_little (demo_env True) = True" by (simp add: demo_env_def)
  show ?thesis
    using s2v_final_step_core [OF h, of "[9, 10, 11]"]
    by (simp add: e demo_ctx_fields demo_dbl demo_stream xor_bytes_def demo_digest_def upt_rec zeros12)
qed

theorem siv128_decrypt_auth_failure_witness:
  "CRYPTO_siv128_decrypt (demo_env True) demo_ctx [1, 2, 3] [7, 7, 7, 7] =
     (0, demo_ctx\<lparr>crypto_ok := 0, d := [2, 4, 6, 8, 10, 12, 14, 16, 18, 20, 22, 24, 26, 28, 30, 32]\<rparr>,
      [0, 0, 0, 7])
   \<and> CRYPTO_siv128_finish
        (demo_ctx\<lparr>crypto_ok := 0, d := [2, 4, 6, 8, 10, 12, 14, 16, 18, 20, 22, 24, 26, 28, 30, 32]\<rparr>)
       = - 1"
proof -
  have 1: "crypto_ok demo_ctx \<noteq> 0" and 2: "length (tag demo_ctx) = 16"
    by (simp_all add: demo_ctx_fields)
  have 5: "[173, 174, 175, 176, 177, 178, 179, 180, 181, 182, 183, 184, 185, 186, 187, 188]
      \<noteq> tag demo_ctx"
    by (simp add: demo_ctx_fields zeros16)
  from siv128_decrypt_auth_failure [OF 1 2 demo_candidate demo_recomputed 5]
  show ?thesis
    by (simp add: OPENSSL_cleanse_def demo_ctx_fields eval_nat_numeral)
qed

text \<open>The budget, once zero, stays zero under every call but speed, and a crypto call
  on a spent budget returns 0.\<close>

lemma s2v_budget:
  assumes "siv128_do_s2v_p E sctx M = (sctx2, r)"
  shows "crypto_ok sctx2 = crypto_ok sctx"
proof -
  have s2: "sctx2 = sctx\<lparr>d := d sctx2\<rparr>" using s2v_frame [OF assms] .
  show ?thesis by (subst s2) simp
qed

lemma encrypt_budget:
  "crypto_ok (fst (snd (CRYPTO_siv128_encrypt E sctx inp out))) =
     (if crypto_ok sctx = 0 then 0 else crypto_ok sctx - 1)"
proof (cases "siv128_do_s2v_p E (sctx\<lparr>crypto_ok := crypto_ok sctx - 1\<rparr>) inp")
  case (Pair sctx2 r)
  from s2v_budget [OF Pair] show ?thesis
    by (simp add: CRYPTO_siv128_encrypt_def Let_def Pair split: option.splits prod.splits)
qed

lemma decrypt_budget:
  "crypto_ok (fst (snd (CRYPTO_siv128_decrypt E sctx inp out))) =
     (if crypto_ok sctx = 0 then 0 else crypto_ok sctx - 1)"
proof (cases "siv128_do_encrypt E (cipher_ctx sctx) out inp (clear_counter_bits (take SIV_LEN (tag sctx)))")
  case enc: (Pair r out1)
  show ?thesis
  proof (cases "siv128_do_s2v_p E (sctx\<lparr>crypto_ok := crypto_ok sctx - 1\<rparr>) (take (length inp) out1)")
    case (Pair sctx2 t)
    from s2v_budget [OF Pair] show ?thesis
      by (simp add: CRYPTO_siv128_decrypt_def Let_def enc Pair split: option.splits prod.splits)
  qed
qed

lemma aad_budget: "crypto_ok (snd (CRYPTO_siv128_aad E sctx a)) = crypto_ok sctx"
  by (simp add: CRYPTO_siv128_aad_def Let_def split: option.splits)

lemma call_budget:
  assumes "\<not> is_speed_call c"
  shows "crypto_ok (snd (siv_call E sctx c)) =
     (if is_crypto_call c \<and> crypto_ok sctx \<noteq> 0 then crypto_ok sctx - 1 else crypto_ok sctx)"
proof (cases c)
  case (Aad a)
  then show ?thesis by (simp add: aad_budget)
next
  case (Encrypt inp out)
  then show ?thesis by (simp add: case_prod_unfold encrypt_budget)
next
  case (Decrypt inp out)
  then show ?thesis by (simp add: case_prod_unfold decrypt_budget)
next
  case (Set_tag tagbuf len)
  then show ?thesis by (simp add: CRYPTO_siv128_set_tag_def)
next
  case (Get_tag tagbuf len)
  then show ?thesis by simp
next
  case Finish
  then show ?thesis by simp
next
  case (Speed arg)
  with assms show ?thesis by simp
qed

lemma call_spent:
  assumes "crypto_ok sctx = 0" "is_crypto_call c"
  shows "fst (siv_call E sctx c) = 0"
  using assms
  by (cases c) (simp_all add: CRYPTO_siv128_encrypt_def CRYPTO_siv128_decrypt_def)

lemma crypto_results_Cons:
  "crypto_results (c # cs) (r # rs) =
     (if is_crypto_call c then r # crypto_results cs rs else crypto_results cs rs)"
  by (simp add: crypto_results_def)

lemma calls_spent:
  assumes "\<forall>c \<in> set cs. \<not> is_speed_call c"
  shows "crypto_ok sctx = 0 \<Longrightarrow> \<forall>r \<in> set (crypto_results cs (fst (siv_calls E sctx cs))). r = 0"
  using assms
proof (induction cs arbitrary: sctx)
  case Nil
  then show ?case by (simp add: crypto_results_def)
next
  case (Cons c cs)
  obtain r s1 where c: "siv_call E sctx c = (r, s1)" by (cases "siv_call E sctx c")
  obtain rs s2 where cs: "siv_calls E s1 cs = (rs, s2)" by (cases "siv_calls E s1 cs")
  have "crypto_ok s1 = 0"
    using call_budget [of c E sctx] Cons.prems c by simp
  from Cons.IH [OF this] Cons.prems(2) cs
  have rest: "\<forall>r \<in> set (crypto_results cs rs). r = 0" by simp
  have "is_crypto_call c \<Longrightarrow> r = 0"
    using call_spent [OF Cons.prems(1), of c E] c by simp
  with rest show ?case
    by (simp add: c cs crypto_results_Cons)
qed

lemma calls_one_shot:
  assumes "\<forall>c \<in> set cs. \<not> is_speed_call c"
  shows "crypto_ok sctx = 1 \<Longrightarrow>
     \<forall>r \<in> set (tl (crypto_results cs (fst (siv_calls E sctx cs)))). r = 0"
  using assms
proof (induction cs arbitrary: sctx)
  case Nil
  then show ?case by (simp add: crypto_results_def)
next
  case (Cons c cs)
  obtain r s1 where c: "siv_call E sctx c = (r, s1)" by (cases "siv_call E sctx c")
  obtain rs s2 where cs: "siv_calls E s1 cs = (rs, s2)" by (cases "siv_calls E s1 cs")
  have nospeed: "\<forall>c \<in> set cs. \<not> is_speed_call c" using Cons.prems(2) by simp
  show ?case
  proof (cases "is_crypto_call c")
    case True
    then have "crypto_ok s1 = 0"
      using call_budget [of c E sctx] Cons.prems c by simp
    from calls_spent [OF nospeed this, of E] cs
    show ?thesis by (simp add: c crypto_results_Cons True)
  next
    case False
    then have "crypto_ok s1 = 1"
      using call_budget [of c E sctx] Cons.prems c by simp
    from Cons.IH [OF this nospeed] cs
    show ?thesis by (simp add: c crypto_results_Cons False)
  qed
qed

lemma init_budget:
  assumes "CRYPTO_siv128_init E mem k klen cbc ctr = (1, sctx)"
  shows "crypto_ok sctx = 1 \<and> final_ret sctx = - 1"
  using assms
  by (auto simp add: CRYPTO_siv128_init_def Let_def split: option.splits)

lemma encrypt_wf:
  assumes "crypto_ok sctx \<noteq> 0"
    and "mac_ctx_init sctx = Some m" "mac_ok E m"
    and "cipher_ctx sctx = Some c" "ctr_ok E c"
    and "length (d sctx) = 16" "length P < 2 ^ 31"
  shows "\<exists>sctx' out'. CRYPTO_siv128_encrypt E sctx P out = (int (length P), sctx', out') \<and>
     crypto_ok sctx' = crypto_ok sctx - 1 \<and> mac_ctx_init sctx' = Some m \<and>
     cipher_ctx sctx' = Some c \<and> d sctx' = s2v_last_d E (d sctx) P \<and> final_ret sctx' = 0"
  using encrypt_ok [OF assms, of out] assms(2,4) by auto

lemma demo_init:
  "CRYPTO_siv128_init (demo_env little) mem (Some [1, 2, 3, 4]) 2 cbc (Some ctr) =
     (1, mem\<lparr>d := [3, 4, 5, 6, 7, 8, 9, 10, 11, 12, 13, 14, 15, 16, 17, 18],
              cipher_ctx := Some [3, 4], mac_ctx_init := Some [1, 2],
              final_ret := - 1, crypto_ok := 1\<rparr>)"
  by (simp add: CRYPTO_siv128_init_def demo_env_def Let_def SIV_LEN_def zeros16 demo_digest_def
      upt_rec overwrite_def)

text \<open>
  Claim C4, as amended.  For every context between a successful init and cleanup, with
  no second init in between: in every sequence of aad, encrypt, decrypt, set_tag,
  get_tag and finish calls on it, so without a call of \<open>CRYPTO_siv128_speed\<close>, every
  encrypt or decrypt call after the first one returns 0, whether the first one succeeded
  or not.
\<close>

theorem siv_one_shot_budget:
  assumes "CRYPTO_siv128_init E mem k klen cbc ctr = (1, sctx)"
    and "\<forall>c \<in> set cs. \<not> is_speed_call c"
  shows "\<forall>r \<in> set (tl (crypto_results cs (fst (siv_calls E sctx cs)))). r = 0"
proof -
  have "crypto_ok sctx = 1" using init_budget [OF assms(1)] by simp
  then show ?thesis using assms(2) by (intro calls_one_shot)
qed

theorem siv_one_shot_budget_witness:
  "set (tl (crypto_results
        [Aad [1], Encrypt [9, 8, 7] [0, 0, 0], Aad [2], Encrypt [9, 8, 7] [0, 0, 0],
         Decrypt [1, 2, 3] [0, 0, 0]]
        (fst (siv_calls (demo_env True)
           (demo_mem\<lparr>d := [3, 4, 5, 6, 7, 8, 9, 10, 11, 12, 13, 14, 15, 16, 17, 18],
              cipher_ctx := Some [3, 4], mac_ctx_init := Some [1, 2],
              final_ret := - 1, crypto_ok := 1\<rparr>)
           [Aad [1], Encrypt [9, 8, 7] [0, 0, 0], Aad [2], Encrypt [9, 8, 7] [0, 0, 0],
            Decrypt [1, 2, 3] [0, 0, 0]])))) \<subseteq> {0}"
proof -
  have ns: "\<forall>c \<in> set [Aad [1], Encrypt [9, 8, 7] [0, 0, 0], Aad [2], Encrypt [9, 8, 7] [0, 0, 0],
         Decrypt [1, 2, 3] [0, 0, 0]]. \<not> is_speed_call c"
    by simp
  from siv_one_shot_budget [OF demo_init ns, of True demo_mem]
  show ?thesis by blast
qed

text \<open>The claim as stated fails on a context on which \<open>CRYPTO_siv128_speed(ctx, 1)\<close> has
  been called: the budget is then \<open>- 1\<close> and two encrypt calls in a row both return the
  length.\<close>

theorem siv_one_shot_budget_counterexample:
  "crypto_results [Speed 1, Encrypt [9, 8, 7] [0, 0, 0], Encrypt [9, 8, 7] [0, 0, 0]]
     (fst (siv_calls (demo_env True)
        (snd (CRYPTO_siv128_init (demo_env True) demo_mem (Some [1, 2, 3, 4]) 2
                ''AES-128-CBC'' (Some ''AES-128-CTR'')))
        [Speed 1, Encrypt [9, 8, 7] [0, 0, 0], Encrypt [9, 8, 7] [0, 0, 0]])) = [3, 3]"
proof -
  let ?E = "demo_env True"
  let ?s0 = "demo_mem\<lparr>d := [3, 4, 5, 6, 7, 8, 9, 10, 11, 12, 13, 14, 15, 16, 17, 18],
              cipher_ctx := Some [3, 4], mac_ctx_init := Some [1, 2],
              final_ret := - 1, crypto_ok := 1\<rparr>"
  let ?s1 = "?s0\<lparr>crypto_ok := - 1\<rparr>"
  have P: "length [9, 8, 7 :: byte] < 2 ^ 31" by simp
  have "crypto_ok ?s1 \<noteq> 0" "mac_ctx_init ?s1 = Some [1, 2]" "cipher_ctx ?s1 = Some [3, 4]"
    "length (d ?s1) = 16"
    by simp_all
  from encrypt_wf [where out = "[0, 0, 0]" and E = ?E, OF this(1,2) demo_mac_ok this(3) demo_ctr_ok this(4) P]
  obtain s2 out2 where e1: "CRYPTO_siv128_encrypt ?E ?s1 [9, 8, 7] [0, 0, 0] = (3, s2, out2)"
    and s2: "crypto_ok s2 = - 2" "mac_ctx_init s2 = Some [1, 2]" "cipher_ctx s2 = Some [3, 4]"
      "d s2 = s2v_last_d ?E (d ?s1) [9, 8, 7]"
    by auto
  have "crypto_ok s2 \<noteq> 0" "length (d s2) = 16"
    using s2 by (simp_all add: length_s2v_last_d)
  from encrypt_wf [where out = "[0, 0, 0]" and E = ?E, OF this(1) s2(2) demo_mac_ok s2(3) demo_ctr_ok this(2) P]
  obtain s3 out3 where e2: "CRYPTO_siv128_encrypt ?E s2 [9, 8, 7] [0, 0, 0] = (3, s3, out3)"
    by auto
  show ?thesis
    using e1 e2
    by (simp add: demo_init CRYPTO_siv128_speed_def crypto_results_def)
qed

lemma s2v_keeps:
  assumes "siv128_do_s2v_p E sctx M = (sctx2, r)"
  shows "mac_ctx_init sctx2 = mac_ctx_init sctx \<and>
         (d sctx2 = d sctx \<or> d sctx2 = siv128_dbl (is_little E) (d sctx))"
  using assms
  by (auto simp add: siv128_do_s2v_p_def Let_def split: option.splits if_splits)

lemma encrypt_keeps:
  assumes "CRYPTO_siv128_encrypt E sctx inp out = (r, sctx', out')"
  shows "mac_ctx_init sctx' = mac_ctx_init sctx \<and>
         (d sctx' = d sctx \<or> d sctx' = siv128_dbl (is_little E) (d sctx))"
proof (cases "siv128_do_s2v_p E (sctx\<lparr>crypto_ok := crypto_ok sctx - 1\<rparr>) inp")
  case (Pair sctx2 t)
  from s2v_keeps [OF Pair] assms show ?thesis
    by (auto simp add: CRYPTO_siv128_encrypt_def Let_def Pair split: option.splits prod.splits if_splits)
qed

lemma decrypt_keeps:
  assumes "CRYPTO_siv128_decrypt E sctx inp out = (r, sctx', out')"
  shows "mac_ctx_init sctx' = mac_ctx_init sctx \<and>
         (d sctx' = d sctx \<or> d sctx' = siv128_dbl (is_little E) (d sctx))"
proof (cases "siv128_do_encrypt E (cipher_ctx sctx) out inp (clear_counter_bits (take SIV_LEN (tag sctx)))")
  case enc: (Pair r1 out1)
  show ?thesis
  proof (cases "siv128_do_s2v_p E (sctx\<lparr>crypto_ok := crypto_ok sctx - 1\<rparr>) (take (length inp) out1)")
    case (Pair sctx2 t)
    from s2v_keeps [OF Pair] assms show ?thesis
      by (auto simp add: CRYPTO_siv128_decrypt_def Let_def enc Pair
          split: option.splits prod.splits if_splits)
  qed
qed

text \<open>
  Claim C5, as amended.  The aad operation does not consult the budget.  On a context
  on which encrypt or decrypt has already been invoked (whatever it returned), a
  subsequent aad call still absorbs the segment whenever the CMAC primitive does not
  fail: it returns 1 and replaces the accumulator \<open>D\<close> by \<open>2D XOR CMAC(segment)\<close>.
\<close>

theorem siv128_aad_after_crypto_op:
  assumes "CRYPTO_siv128_encrypt E sctx0 inp out = (r, sctx, out') \<or>
           CRYPTO_siv128_decrypt E sctx0 inp out = (r, sctx, out')"
    and "length (d sctx0) = 16" "mac_ctx_init sctx0 = Some m" "mac_ok E m"
  shows "\<exists>D'. s2v_absorb E (Some m) (d sctx) a = Some D' \<and>
              CRYPTO_siv128_aad E sctx a = (1, sctx\<lparr>d := D'\<rparr>)"
proof -
  from assms(1) have keeps: "mac_ctx_init sctx = mac_ctx_init sctx0 \<and>
         (d sctx = d sctx0 \<or> d sctx = siv128_dbl (is_little E) (d sctx0))"
    using encrypt_keeps decrypt_keeps by blast
  then have l: "length (d sctx) = 16"
    using assms(2) by (auto simp add: length_siv128_dbl)
  obtain D' where "s2v_absorb E (Some m) (d sctx) a = Some D'"
    using s2v_absorb_ok [OF assms(4) l] by blast
  then show ?thesis
    using keeps assms(3) by (simp add: aad_eq [OF l])
qed

lemma demo_dbl2:
  "siv128_dbl little [3, 4, 5, 6, 7, 8, 9, 10, 11, 12, 13, 14, 15, 16, 17, 18]
     = [6, 8, 10, 12, 14, 16, 18, 20, 22, 24, 26, 28, 30, 32, 34, 36]"
  "siv128_dbl little [6, 8, 10, 12, 14, 16, 18, 20, 22, 24, 26, 28, 30, 32, 34, 36]
     = [12, 16, 20, 24, 28, 32, 36, 40, 44, 48, 52, 56, 60, 64, 68, 72]"
  by (cases little; simp; code_simp)+

theorem siv128_aad_after_crypto_op_witness:
  "\<exists>s1 out1. CRYPTO_siv128_encrypt (demo_env True)
       (demo_mem\<lparr>d := [3, 4, 5, 6, 7, 8, 9, 10, 11, 12, 13, 14, 15, 16, 17, 18],
              cipher_ctx := Some [3, 4], mac_ctx_init := Some [1, 2],
              final_ret := - 1, crypto_ok := 1\<rparr>) [9, 8, 7] [0, 0, 0] = (3, s1, out1) \<and>
     (\<exists>D'. s2v_absorb (demo_env True) (Some [1, 2]) (d s1) [1] = Some D' \<and>
        CRYPTO_siv128_aad (demo_env True) s1 [1] = (1, s1\<lparr>d := D'\<rparr>))"
proof -
  let ?E = "demo_env True"
  let ?s0 = "demo_mem\<lparr>d := [3, 4, 5, 6, 7, 8, 9, 10, 11, 12, 13, 14, 15, 16, 17, 18],
              cipher_ctx := Some [3, 4], mac_ctx_init := Some [1, 2],
              final_ret := - 1, crypto_ok := 1\<rparr>"
  have P: "length [9, 8, 7 :: byte] < 2 ^ 31" by simp
  have s0: "crypto_ok ?s0 \<noteq> 0" "mac_ctx_init ?s0 = Some [1, 2]" "cipher_ctx ?s0 = Some [3, 4]"
    "length (d ?s0) = 16"
    by simp_all
  from encrypt_wf [where out = "[0, 0, 0]" and E = ?E, OF s0(1,2) demo_mac_ok s0(3) demo_ctr_ok s0(4) P]
  obtain s1 out1 where e1: "CRYPTO_siv128_encrypt ?E ?s0 [9, 8, 7] [0, 0, 0] = (3, s1, out1)"
    by auto
  then have "CRYPTO_siv128_encrypt ?E ?s0 [9, 8, 7] [0, 0, 0] = (3, s1, out1) \<or>
           CRYPTO_siv128_decrypt ?E ?s0 [9, 8, 7] [0, 0, 0] = (3, s1, out1)" by simp
  from siv128_aad_after_crypto_op [OF this s0(4) s0(2) demo_mac_ok, of "[1]"] e1
  show ?thesis by blast
qed

text \<open>The claim as stated fails: after init and an encrypt call, an aad call returns 1
  and changes the accumulator.\<close>

theorem siv128_aad_after_crypto_op_counterexample:
  "(case CRYPTO_siv128_init (demo_env True) demo_mem (Some [1, 2, 3, 4]) 2
           ''AES-128-CBC'' (Some ''AES-128-CTR'') of
      (r0, s0) \<Rightarrow>
        (case CRYPTO_siv128_encrypt (demo_env True) s0 [9, 8, 7] [0, 0, 0] of
           (r1, s1, out1) \<Rightarrow>
             (case CRYPTO_siv128_aad (demo_env True) s1 [1] of
                (r2, s2) \<Rightarrow>
                  (r0, r1, r2, d s1, d s2)))) =
   (1, 3, 1,
    [6, 8, 10, 12, 14, 16, 18, 20, 22, 24, 26, 28, 30, 32, 34, 36],
    [8, 21, 18, 31, 20, 41, 46, 35, 32, 61, 58, 55, 44, 81, 86, 91])"
proof -
  let ?E = "demo_env True"
  let ?s0 = "demo_mem\<lparr>d := [3, 4, 5, 6, 7, 8, 9, 10, 11, 12, 13, 14, 15, 16, 17, 18],
              cipher_ctx := Some [3, 4], mac_ctx_init := Some [1, 2],
              final_ret := - 1, crypto_ok := 1\<rparr>"
  have P: "length [9, 8, 7 :: byte] < 2 ^ 31" by simp
  have s0: "crypto_ok ?s0 \<noteq> 0" "mac_ctx_init ?s0 = Some [1, 2]" "cipher_ctx ?s0 = Some [3, 4]"
    "length (d ?s0) = 16"
    by simp_all
  from encrypt_wf [where out = "[0, 0, 0]" and E = ?E, OF s0(1,2) demo_mac_ok s0(3) demo_ctr_ok s0(4) P]
  obtain s1 out1 where e1: "CRYPTO_siv128_encrypt ?E ?s0 [9, 8, 7] [0, 0, 0] = (3, s1, out1)"
    and s1: "mac_ctx_init s1 = Some [1, 2]" "d s1 = s2v_last_d ?E (d ?s0) [9, 8, 7]"
    by auto
  have e: "is_little ?E = True" by (simp add: demo_env_def)
  have d1: "d s1 = [6, 8, 10, 12, 14, 16, 18, 20, 22, 24, 26, 28, 30, 32, 34, 36]"
    using s1(2) by (simp add: s2v_last_d_def demo_dbl2)
  then have l: "length (d s1) = 16" by simp
  have ab: "s2v_absorb ?E (Some [1, 2]) (d s1) [1]
      = Some [8, 21, 18, 31, 20, 41, 46, 35, 32, 61, 58, 55, 44, 81, 86, 91]"
    by (simp add: s2v_absorb_def d1 demo_dbl2 demo_stream xor_bytes_def demo_digest_def upt_rec)
  have "CRYPTO_siv128_aad ?E s1 [1] =
      (1, s1\<lparr>d := [8, 21, 18, 31, 20, 41, 46, 35, 32, 61, 58, 55, 44, 81, 86, 91]\<rparr>)"
    by (simp add: aad_eq [OF l] s1(1) ab)
  then show ?thesis
    using e1 d1 by (simp add: demo_init)
qed

section \<open>KMAC: facts about the encoders\<close>

lemma get_encode_size_loop_digits:
  "unat bits < 256 ^ k \<Longrightarrow> cnt + k \<le> 8 \<Longrightarrow>
     get_encode_size_loop bits cnt = (if bits = 0 then cnt else cnt + byte_count_spec (unat bits))"
proof (induction k arbitrary: bits cnt)
  case 0
  then have "bits = 0" by (simp add: unat_eq_0)
  then show ?case by (simp add: get_encode_size_loop.simps)
next
  case (Suc k)
  show ?case
  proof (cases "bits = 0")
    case True
    then show ?thesis by (simp add: get_encode_size_loop.simps)
  next
    case False
    have u: "unat (drop_bit 8 bits) = unat bits div 256"
      by (simp add: drop_bit_eq_div unat_div)
    then have small: "unat (drop_bit 8 bits) < 256 ^ k"
      using Suc.prems(1) by (simp add: less_mult_imp_div_less)
    have z: "drop_bit 8 bits = 0 \<longleftrightarrow> unat bits < 256"
      using u by (simp add: unat_eq_0 [symmetric] div_eq_0_iff del: unat_eq_0)
    have "get_encode_size_loop bits cnt = get_encode_size_loop (drop_bit 8 bits) (cnt + 1)"
      using False Suc.prems(2)
      by (subst get_encode_size_loop.simps) (simp add: sizeof_size_t_def)
    also have "\<dots> = (if drop_bit 8 bits = 0 then cnt + 1
        else cnt + 1 + byte_count_spec (unat (drop_bit 8 bits)))"
      using Suc.prems(2) by (intro Suc.IH [OF small]) simp
    also have "\<dots> = cnt + byte_count_spec (unat bits)"
      by (subst (2) byte_count_spec.simps) (simp add: z u)
    finally show ?thesis using False by simp
  qed
qed

lemma byte_count_spec_bounds:
  "1 \<le> byte_count_spec x \<and> x < 256 ^ byte_count_spec x \<and>
     (byte_count_spec x = 1 \<or> 256 ^ (byte_count_spec x - 1) \<le> x)"
proof (induction x rule: byte_count_spec.induct)
  case (1 x)
  show ?case
  proof (cases "x < 256")
    case True
    then show ?thesis by (simp add: byte_count_spec.simps)
  next
    case False
    with 1 have IH: "1 \<le> byte_count_spec (x div 256)"
      "x div 256 < 256 ^ byte_count_spec (x div 256)"
      "byte_count_spec (x div 256) = 1 \<or> 256 ^ (byte_count_spec (x div 256) - 1) \<le> x div 256"
      by simp_all
    have bc: "byte_count_spec x = Suc (byte_count_spec (x div 256))"
      using False by (subst byte_count_spec.simps) simp
    have a: "x < 256 ^ Suc (byte_count_spec (x div 256))"
      using IH(2) by (simp add: div_less_iff_less_mult mult.commute)
    have b: "256 ^ byte_count_spec (x div 256) \<le> x"
    proof (cases "byte_count_spec (x div 256) = 1")
      case True
      with False show ?thesis by simp
    next
      case F2: False
      with IH(3) have "256 ^ (byte_count_spec (x div 256) - 1) \<le> x div 256" by simp
      then have "256 * 256 ^ (byte_count_spec (x div 256) - 1) \<le> x"
        by (simp add: less_eq_div_iff_mult_less_eq mult.commute)
      moreover have "256 * (256::nat) ^ (byte_count_spec (x div 256) - 1) = 256 ^ byte_count_spec (x div 256)"
        using IH(1) by (metis One_nat_def Suc_pred less_eq_Suc_le power_Suc)
      ultimately show ?thesis by simp
    qed
    from a b show ?thesis unfolding bc by simp
  qed
qed

lemma get_encode_size_spec: "get_encode_size bits = byte_count_spec (unat bits)"
proof -
  have "unat bits < 256 ^ 8"
    using unsigned_less [of bits, where 'a = nat] by simp
  from get_encode_size_loop_digits [OF this, of 0] byte_count_spec_bounds [of "unat bits"]
  show ?thesis
    by (auto simp add: get_encode_size_def Let_def byte_count_spec.simps [of 0])
qed

lemma byte_count_spec_le_8: "x < 2 ^ 64 \<Longrightarrow> byte_count_spec x \<le> 8"
proof (rule ccontr)
  assume x: "x < 2 ^ 64" and "\<not> byte_count_spec x \<le> 8"
  then have 9: "9 \<le> byte_count_spec x" by simp
  then have "8 \<le> byte_count_spec x - 1" by simp
  then have "(256 :: nat) ^ 8 \<le> 256 ^ (byte_count_spec x - 1)"
    by (intro power_increasing) simp_all
  moreover have "byte_count_spec x \<noteq> 1" using 9 by simp
  ultimately have "byte_count_spec x \<noteq> 1" "(256 :: nat) ^ 8 \<le> 256 ^ (byte_count_spec x - 1)"
    by blast+
  with byte_count_spec_bounds [of x] have "(256 :: nat) ^ 8 \<le> x" by linarith
  with x show False by simp
qed

lemma get_encode_size_le_8: "get_encode_size bits \<le> 8"
  using byte_count_spec_le_8 [of "unat bits"] unsigned_less [of bits, where 'a = nat]
  by (simp add: get_encode_size_spec)

lemma low_byte: "(ucast (w AND 0xFF) :: byte) = ucast w" for w :: "'a::len word"
proof -
  have m: "(0xFF :: 'a word) = mask 8" by (simp add: mask_eq_exp_minus_1)
  show ?thesis
    unfolding m by (rule bit_word_eqI) (auto simp add: bit_simps dest: bit_imp_le_length)
qed

lemma ucast_drop_bit_digit:
  "(ucast (drop_bit (8 * k) w) :: byte) = of_nat (unat w div 256 ^ k)" for w :: "'a::len word"
proof -
  have "unat (drop_bit (8 * k) w) = drop_bit (8 * k) (unat w)"
    by (rule unat_drop_bit_eq)
  also have "\<dots> = unat w div 2 ^ (8 * k)"
    by (rule drop_bit_eq_div)
  also have "(2 :: nat) ^ (8 * k) = 256 ^ k" by (simp add: power_mult)
  finally have "unat (drop_bit (8 * k) w) = unat w div 256 ^ k" .
  then show ?thesis
    using of_nat_unat [of "drop_bit (8 * k) w", where 'a = byte] by simp
qed

lemma right_encode_loop_step:
  "right_encode_loop out (Suc i) bits = right_encode_loop (out[i := ucast bits]) i (drop_bit 8 bits)"
  by (simp add: low_byte)

lemma length_right_encode_loop: "length (right_encode_loop out n bits) = length out"
  by (induction n arbitrary: out bits) (simp_all del: right_encode_loop.simps(2) add: right_encode_loop_step)

lemma right_encode_loop_nth:
  "j < length out \<Longrightarrow> right_encode_loop out n bits ! j =
      (if j < n then ucast (drop_bit (8 * (n - 1 - j)) bits) else out ! j)"
proof (induction n arbitrary: out bits)
  case 0
  then show ?case by simp
next
  case (Suc i)
  let ?out = "out[i := ucast bits]"
  have IH: "right_encode_loop ?out i (drop_bit 8 bits) ! j =
      (if j < i then ucast (drop_bit (8 * (i - 1 - j)) (drop_bit 8 bits)) else ?out ! j)"
    using Suc.IH [of ?out "drop_bit 8 bits"] Suc.prems by simp
  show ?case
  proof (cases "j < i")
    case True
    then have "8 * (i - 1 - j) + 8 = 8 * (i - j)" by arith
    then show ?thesis
      using True by (simp add: right_encode_loop_step IH drop_bit_drop_bit add.commute del: right_encode_loop.simps(2))
  next
    case False
    then show ?thesis
      using Suc.prems IH
      by (cases "j = i") (simp_all add: right_encode_loop_step del: right_encode_loop.simps(2))
  qed
qed

lemma encode_string_loop_step:
  "encode_string_loop out (Suc i) bits =
     encode_string_loop (out[Suc i := ucast bits]) i (signed_drop_bit 8 bits)"
  by (simp add: low_byte)

lemma length_encode_string_loop: "length (encode_string_loop out n bits) = length out"
  by (induction n arbitrary: out bits) (simp_all del: encode_string_loop.simps(2) add: encode_string_loop_step)

lemma encode_string_loop_nth:
  "j < length out \<Longrightarrow> encode_string_loop out n bits ! j =
      (if 1 \<le> j \<and> j \<le> n then ucast (signed_drop_bit (8 * (n - j)) bits) else out ! j)"
proof (induction n arbitrary: out bits)
  case 0
  then show ?case by auto
next
  case (Suc i)
  let ?out = "out[Suc i := ucast bits]"
  have IH: "encode_string_loop ?out i (signed_drop_bit 8 bits) ! j =
      (if 1 \<le> j \<and> j \<le> i then ucast (signed_drop_bit (8 * (i - j)) (signed_drop_bit 8 bits))
       else ?out ! j)"
    using Suc.IH [of ?out "signed_drop_bit 8 bits"] Suc.prems by simp
  show ?case
  proof (cases "1 \<le> j \<and> j \<le> i")
    case True
    then have "8 * (i - j) + 8 = 8 * (Suc i - j)" by arith
    then show ?thesis
      using True
      by (simp add: encode_string_loop_step IH signed_drop_bit_signed_drop_bit
          del: encode_string_loop.simps(2))
  next
    case False
    then show ?thesis
      using Suc.prems IH
      by (cases "j = Suc i") (auto simp add: encode_string_loop_step simp del: encode_string_loop.simps(2))
  qed
qed

lemma be_digits_nth: "i < n \<Longrightarrow> be_digits n x ! i = of_nat (x div 256 ^ (n - 1 - i))"
  by (simp add: be_digits_def)

lemma length_be_digits: "length (be_digits n x) = n"
  by (simp add: be_digits_def)

text \<open>\<open>right_encode\<close> never returns 0 and stores the spec's encoding of its argument.\<close>

lemma right_encode_eq: "right_encode bits = Some (right_encode_spec (unat bits))"
proof -
  let ?n = "get_encode_size bits"
  have n: "?n = byte_count_spec (unat bits)" by (rule get_encode_size_spec)
  have small: "\<not> ?n > 0xFF" using get_encode_size_le_8 [of bits] by simp
  let ?buf = "replicate (?n + 1) (0 :: byte)"
  let ?r = "(right_encode_loop ?buf ?n bits)[?n := of_nat ?n]"
  have len: "length ?r = ?n + 1"
    by (simp only: length_list_update length_right_encode_loop length_replicate)
  have "?r = be_digits ?n (unat bits) @ [of_nat ?n]"
  proof (rule nth_equalityI)
    show "length ?r = length (be_digits ?n (unat bits) @ [of_nat ?n])"
      by (simp only: len length_append length_be_digits) simp
  next
    fix j assume "j < length ?r"
    then have j: "j < ?n + 1" by (simp only: len)
    then have jb: "j < length ?buf" by (simp only: length_replicate)
    have jl: "j < length (right_encode_loop ?buf ?n bits)"
      using j by (simp only: length_right_encode_loop length_replicate)
    show "?r ! j = (be_digits ?n (unat bits) @ [of_nat ?n]) ! j"
    proof (cases "j < ?n")
      case True
      have "?r ! j = right_encode_loop ?buf ?n bits ! j"
        using True by simp
      also have "\<dots> = ucast (drop_bit (8 * (?n - 1 - j)) bits)"
        using right_encode_loop_nth [OF jb, of ?n bits] True by simp
      also have "\<dots> = be_digits ?n (unat bits) ! j"
        using True by (simp add: be_digits_nth ucast_drop_bit_digit)
      finally show ?thesis
        using True by (simp add: nth_append length_be_digits)
    next
      case False
      with j have e: "j = ?n" by simp
      have "?r ! ?n = of_nat ?n"
        using jl e by (simp only: nth_list_update_eq)
      then show ?thesis
        unfolding e by (simp add: nth_append length_be_digits)
    qed
  qed
  then show ?thesis
    using small by (simp add: right_encode_def Let_def right_encode_spec_def n)
qed

text \<open>An \<open>int\<close> that holds a natural number below \<open>2^31\<close>.\<close>

lemma sint_of_nat_small: "m < 2 ^ 31 \<Longrightarrow> sint (of_nat m :: c_int) = int m"
  by (simp add: signed_of_nat signed_take_bit_int_eq_self)

lemma unat_of_nat_small: "m < 2 ^ 31 \<Longrightarrow> unat (of_nat m :: c_int) = m"
  by (simp add: unat_of_nat)

lemma scast_of_nat_small: "m < 2 ^ 31 \<Longrightarrow> unat (scast (of_nat m :: c_int) :: size_t) = m"
  by (simp add: scast_eq sint_of_nat_small unat_of_nat)

lemma signed_drop_bit_nonneg:
  assumes "0 \<le> sint w"
  shows "signed_drop_bit k w = drop_bit k w"
proof (rule bit_word_eqI)
  fix n assume n: "n < LENGTH('a)"
  have top: "\<not> bit w (LENGTH('a) - Suc 0)"
    using assms by (simp add: bit_last_iff)
  show "bit (signed_drop_bit k w) n = bit (drop_bit k w) n"
  proof (cases "LENGTH('a) - k \<le> n")
    case True
    then have "LENGTH('a) \<le> k + n" by simp
    then have "\<not> bit w (k + n)" by (auto dest: bit_imp_le_length)
    with True n top show ?thesis
      by (simp add: bit_signed_drop_bit_iff bit_drop_bit_eq)
  next
    case False
    then show ?thesis
      by (simp add: bit_signed_drop_bit_iff bit_drop_bit_eq)
  qed
qed

lemma encode_string_header:
  assumes "x < 2 ^ 31"
  defines "n \<equiv> byte_count_spec x"
  shows "encode_string_loop ((replicate (n + 1) 0)[0 := of_nat n]) n (of_nat x :: c_int)
           = left_encode_spec x"
proof -
  let ?buf = "(replicate (n + 1) (0 :: byte))[0 := of_nat n]"
  let ?r = "encode_string_loop ?buf n (of_nat x :: c_int)"
  have nn: "0 \<le> sint (of_nat x :: c_int)" using assms(1) by (simp add: sint_of_nat_small)
  have lb: "length ?buf = n + 1" by (simp only: length_list_update length_replicate)
  have len: "length ?r = n + 1" by (simp only: length_encode_string_loop lb)
  have "?r = of_nat n # be_digits n x"
  proof (rule nth_equalityI)
    show "length ?r = length (of_nat n # be_digits n x)"
      by (simp add: length_encode_string_loop length_be_digits)
  next
    fix j assume "j < length ?r"
    then have j: "j < n + 1" by (simp only: len)
    then have jb: "j < length ?buf" by (simp only: lb)
    show "?r ! j = (of_nat n # be_digits n x) ! j"
    proof (cases j)
      case 0
      have "?r ! 0 = ?buf ! 0"
        using encode_string_loop_nth [of 0 ?buf n "of_nat x"] lb by simp
      also have "\<dots> = of_nat n" by simp
      finally show ?thesis using 0 by simp
    next
      case (Suc i)
      then have i: "i < n" using j by simp
      have "?r ! j = ucast (signed_drop_bit (8 * (n - j)) (of_nat x :: c_int))"
        using encode_string_loop_nth [OF jb, of n "of_nat x"] Suc i by simp
      also have "\<dots> = ucast (drop_bit (8 * (n - j)) (of_nat x :: c_int))"
        by (simp only: signed_drop_bit_nonneg [OF nn])
      also have "\<dots> = of_nat (x div 256 ^ (n - j))"
        using assms(1) by (simp only: ucast_drop_bit_digit unat_of_nat_small)
      also have "\<dots> = be_digits n x ! i"
        using i Suc by (simp add: be_digits_nth)
      finally show ?thesis using Suc by simp
    qed
  qed
  then show ?thesis by (simp add: left_encode_spec_def n_def)
qed

lemma encode_string_eq:
  assumes "length S < 2 ^ 28"
  shows "encode_string (Some S) (of_nat (length S)) =
     Inr (Some (left_encode_spec (8 * length S) @ S,
                of_nat (length (left_encode_spec (8 * length S) @ S))))"
proof -
  let ?x = "8 * length S"
  have x: "?x < 2 ^ 31" using assms by simp
  have l: "length S < 2 ^ 31" using assms by simp
  have bits: "8 * (of_nat (length S) :: c_int) = of_nat ?x" by simp
  have size: "get_encode_size (scast (of_nat ?x :: c_int)) = byte_count_spec ?x"
    using scast_of_nat_small [OF x] by (simp only: get_encode_size_spec)
  have small: "\<not> byte_count_spec ?x > 0xFF"
    using byte_count_spec_le_8 [of ?x] x by simp
  have sn: "sint (of_nat (length S) :: c_int) = int (length S)"
    by (rule sint_of_nat_small [OF l])
  have tk: "take (nat (sint (of_nat (length S) :: c_int))) S = S"
    using sn by simp
  have ll: "length (left_encode_spec ?x) = 1 + byte_count_spec ?x"
    by (simp add: left_encode_spec_def length_be_digits)
  show ?thesis
    unfolding encode_string_def option.case Let_def bits size
    using small encode_string_header [OF x]
    by (simp add: tk ll sn)
qed

lemma left_encode_spec_32: "left_encode_spec 32 = [0x01, 0x20]"
  by code_simp

lemma left_encode_spec_0: "left_encode_spec 0 = [0x01, 0x00]"
  by code_simp

lemma left_encode_spec_320: "left_encode_spec 320 = [0x02, 0x01, 0x40]"
  by code_simp

text \<open>
  Claim C8, as amended.  For every byte string \<open>S\<close> of fewer than \<open>2^28\<close> bytes, handed
  over with its length (so that \<open>8 * in_len\<close> is an \<open>int\<close>), \<open>encode_string\<close> returns 1 and stores
  \<open>left_encode(8 * |S|) || S\<close>, reporting the number of bytes stored: first the byte
  count \<open>n\<close>, the least \<open>n \<ge> 1\<close> with \<open>8 * |S| < 256^n\<close>, then the \<open>n\<close> bytes of
  \<open>8 * |S|\<close>, most significant first, then \<open>S\<close>.  The string \<open>KMAC\<close> gives
  \<open>01 20 4B 4D 41 43\<close>, the constant \<open>kmac_string\<close>, and the empty string \<open>01 00\<close>.
\<close>

theorem encode_string_layout:
  assumes "length S < 2 ^ 28"
  shows "encode_string (Some S) (of_nat (length S)) =
           Inr (Some (left_encode_spec (8 * length S) @ S,
                      of_nat (length (left_encode_spec (8 * length S) @ S))))
       \<and> 1 \<le> byte_count_spec (8 * length S)
       \<and> 8 * length S < 256 ^ byte_count_spec (8 * length S)
       \<and> (byte_count_spec (8 * length S) = 1 \<or>
            256 ^ (byte_count_spec (8 * length S) - 1) \<le> 8 * length S)
       \<and> encode_string (Some [0x4B, 0x4D, 0x41, 0x43]) 4 = Inr (Some (kmac_string, 6))
       \<and> encode_string (Some []) 0 = Inr (Some ([0x01, 0x00], 2))"
proof -
  have k: "encode_string (Some [0x4B, 0x4D, 0x41, 0x43]) 4 = Inr (Some (kmac_string, 6))"
    using encode_string_eq [of "[0x4B, 0x4D, 0x41, 0x43]"]
    by (simp add: left_encode_spec_32 kmac_string_def)
  have e: "encode_string (Some []) 0 = Inr (Some ([0x01, 0x00], 2))"
    using encode_string_eq [of "[]"]
    by (simp add: left_encode_spec_0)
  from encode_string_eq [OF assms] byte_count_spec_bounds [of "8 * length S"] k e
  show ?thesis by blast
qed

theorem encode_string_layout_witness:
  "encode_string (Some (replicate 40 7)) 40 =
     Inr (Some ([0x02, 0x01, 0x40] @ replicate 40 7, 43))"
proof -
  have "length (replicate 40 (7 :: byte)) < 2 ^ 28" by simp
  from encode_string_layout [OF this] show ?thesis
    by (simp add: left_encode_spec_320)
qed

section \<open>KMAC: the final operation\<close>

lemma upt_3: "[0..<3] = [0, 1, 2]"
  by (simp add: upt_rec)

lemma upt_5: "[0..<5] = [0, 1, 2, 3, 4]"
  by (simp add: upt_rec)

lemma right_encode_spec_0: "right_encode_spec 0 = [0x00, 0x01]"
  by (simp add: right_encode_spec_def be_digits_def byte_count_spec.simps)

lemma right_encode_spec_65536: "right_encode_spec 65536 = [0x01, 0x00, 0x00, 0x03]"
proof -
  have b: "byte_count_spec 65536 = 3" by (simp add: byte_count_spec.simps)
  show ?thesis
    by (simp add: right_encode_spec_def be_digits_def b upt_3)
qed

lemma right_encode_spec_2_32: "right_encode_spec 4294967296 = [0x01, 0x00, 0x00, 0x00, 0x00, 0x05]"
proof -
  have b: "byte_count_spec 4294967296 = 5" by (simp add: byte_count_spec.simps)
  show ?thesis
    by (simp add: right_encode_spec_def be_digits_def b upt_5)
qed

lemma lbits_8192: "(scast (ucast ((8192 :: size_t) * 8) :: c_int) :: size_t) = 65536"
  by simp

lemma lbits_2_29: "(scast (ucast ((2 ^ 29 :: size_t) * 8) :: c_int) :: size_t) = 0"
  by simp

lemma kmac_final_overrun:
  "kmac_final K (kctx\<lparr>out_len := 8192, xof_mode := 0\<rparr>) out outl outsize =
     Inl Stack_buffer_overrun"
  by (simp add: kmac_final_def right_encode_eq right_encode_spec_65536
      KMAC_MAX_ENCODED_HEADER_LEN_def)

lemma kmac_final_truncated:
  "kmac_final K (kctx\<lparr>out_len := 2 ^ 29, xof_mode := 0\<rparr>) out outl outsize =
     (case EVP_DigestUpdate K (ctx kctx) [0x00, 0x01] of
        None \<Rightarrow> Inr (0, kctx\<lparr>out_len := 2 ^ 29, xof_mode := 0\<rparr>, out, outl)
      | Some h \<Rightarrow>
          (case EVP_DigestFinalXOF K h (2 ^ 29) of
             None \<Rightarrow> Inr (0, kctx\<lparr>out_len := 2 ^ 29, xof_mode := 0, ctx := h\<rparr>, out, outl)
           | Some (h', md) \<Rightarrow>
               Inr (1, kctx\<lparr>out_len := 2 ^ 29, xof_mode := 0, ctx := h'\<rparr>, overwrite out md,
                    (case outl of None \<Rightarrow> None | Some v \<Rightarrow> Some (2 ^ 29)))))"
  by (simp add: kmac_final_def right_encode_eq right_encode_spec_0
      KMAC_MAX_ENCODED_HEADER_LEN_def split: option.splits)

lemma byte_count_spec_small:
  assumes "x < 65536"
  shows "byte_count_spec x \<le> 2"
proof -
  have "x div 256 < 256" using assms by simp
  then have "byte_count_spec (x div 256) = 1"
    by (subst byte_count_spec.simps) simp
  then show ?thesis
    by (subst byte_count_spec.simps) simp
qed

lemma length_right_encode_spec: "length (right_encode_spec x) = byte_count_spec x + 1"
  by (simp add: right_encode_spec_def length_be_digits)

lemma lbits_small:
  assumes "unat (n :: size_t) < 8192"
  shows "(scast (ucast (n * 8) :: c_int) :: size_t) = n * 8" and "unat (n * 8) = 8 * unat n"
proof -
  have u: "unat (n * 8) = 8 * unat n"
    using assms by (simp add: unat_word_ariths)
  then have lt: "unat (n * 8) < 2 ^ 31" using assms by simp
  have "n * 8 = of_nat (unat (n * 8))" by simp
  then have e: "(ucast (n * 8) :: c_int) = of_nat (unat (n * 8))"
    by (simp only: of_nat_unat)
  have "unat (scast (ucast (n * 8) :: c_int) :: size_t) = unat (n * 8)"
    unfolding e using scast_of_nat_small [OF lt] by simp
  then show "(scast (ucast (n * 8) :: c_int) :: size_t) = n * 8"
    by (rule word_unat_eq_iff [THEN iffD2])
  show "unat (n * 8) = 8 * unat n" by (rule u)
qed

text \<open>
  Within the three bytes of \<open>encoded_outlen\<close>, that is in XOF mode or for an output of
  fewer than 8192 bytes, \<open>kmac_final\<close> absorbs the right encoding of the output length
  in bits, squeezes \<open>out_len\<close> bytes and reports \<open>out_len\<close>; \<open>outsize\<close> plays no part.
\<close>

lemma kmac_final_in_range:
  assumes "xof_mode kctx \<noteq> 0 \<or> unat (out_len kctx) < 8192"
  shows "kmac_final K kctx out outl outsize =
     (case EVP_DigestUpdate K (ctx kctx)
             (right_encode_spec (if xof_mode kctx \<noteq> 0 then 0 else 8 * unat (out_len kctx))) of
        None \<Rightarrow> Inr (0, kctx, out, outl)
      | Some h \<Rightarrow>
          (case EVP_DigestFinalXOF K h (out_len kctx) of
             None \<Rightarrow> Inr (0, kctx\<lparr>ctx := h\<rparr>, out, outl)
           | Some (h', md) \<Rightarrow>
               Inr (1, kctx\<lparr>ctx := h'\<rparr>, overwrite out md,
                    (case outl of None \<Rightarrow> None | Some v \<Rightarrow> Some (out_len kctx)))))"
proof (cases "xof_mode kctx \<noteq> 0")
  case True
  then show ?thesis
    by (simp add: kmac_final_def right_encode_eq right_encode_spec_0
        KMAC_MAX_ENCODED_HEADER_LEN_def)
next
  case False
  then have small: "unat (out_len kctx) < 8192" using assms by simp
  have l: "length (right_encode_spec (8 * unat (out_len kctx))) \<le> 3"
    using byte_count_spec_small [of "8 * unat (out_len kctx)"] small
    by (simp add: length_right_encode_spec)
  show ?thesis
    using False l
    by (simp add: kmac_final_def right_encode_eq lbits_small [OF small]
        KMAC_MAX_ENCODED_HEADER_LEN_def)
qed

text \<open>
  Claim C7.  \<open>kmac_final\<close> does not absorb \<open>right_encode(out_len * 8)\<close> for every
  context.  With \<open>xof_mode = 0\<close> and \<open>out_len = 8192\<close> the encoding of \<open>65536\<close> bits is
  \<open>01 00 00 03\<close>, four bytes, and \<open>right_encode\<close> stores the fourth past the end of
  the three-byte \<open>encoded_outlen\<close>.  With \<open>out_len = 2^29\<close> the \<open>int\<close> \<open>lbits\<close> holds
  \<open>2^32\<close> cut to 32 bits, which is 0: the bytes absorbed are \<open>00 01\<close>, the encoding
  of 0, where the encoding of \<open>2^32\<close> is \<open>01 00 00 00 00 05\<close>.
\<close>

theorem kmac_final_output_length_encoding:
  "kmac_final K (kctx\<lparr>out_len := 8192, xof_mode := 0\<rparr>) out outl outsize =
     Inl Stack_buffer_overrun
   \<and> right_encode_spec (8 * 8192) = [0x01, 0x00, 0x00, 0x03]
   \<and> kmac_final K (kctx\<lparr>out_len := 2 ^ 29, xof_mode := 0\<rparr>) out outl outsize =
     (case EVP_DigestUpdate K (ctx kctx) [0x00, 0x01] of
        None \<Rightarrow> Inr (0, kctx\<lparr>out_len := 2 ^ 29, xof_mode := 0\<rparr>, out, outl)
      | Some h \<Rightarrow>
          (case EVP_DigestFinalXOF K h (2 ^ 29) of
             None \<Rightarrow> Inr (0, kctx\<lparr>out_len := 2 ^ 29, xof_mode := 0, ctx := h\<rparr>, out, outl)
           | Some (h', md) \<Rightarrow>
               Inr (1, kctx\<lparr>out_len := 2 ^ 29, xof_mode := 0, ctx := h'\<rparr>, overwrite out md,
                    (case outl of None \<Rightarrow> None | Some v \<Rightarrow> Some (2 ^ 29)))))
   \<and> right_encode_spec (8 * 2 ^ 29) = [0x01, 0x00, 0x00, 0x00, 0x00, 0x05]"
  using kmac_final_overrun [of K kctx out outl outsize]
    kmac_final_truncated [of K kctx out outl outsize]
    right_encode_spec_65536 right_encode_spec_2_32
  by simp

theorem kmac_final_output_length_encoding_counterexample:
  "kmac_final demo_sponge (demo_kctx\<lparr>out_len := 8192\<rparr>) (replicate 8192 0) (Some 0) 8192 =
     Inl Stack_buffer_overrun
   \<and> right_encode_spec (8 * 8192) = [0x01, 0x00, 0x00, 0x03]
   \<and> length (right_encode_spec (8 * 8192)) > KMAC_MAX_ENCODED_HEADER_LEN"
proof -
  have e: "demo_kctx\<lparr>out_len := 8192\<rparr> = demo_kctx\<lparr>out_len := 8192, xof_mode := 0\<rparr>"
    by (simp add: demo_kctx_def)
  have a: "kmac_final demo_sponge (demo_kctx\<lparr>out_len := 8192\<rparr>) (replicate 8192 0) (Some 0)
     8192 = Inl Stack_buffer_overrun"
    using kmac_final_overrun [of demo_sponge demo_kctx "replicate 8192 0" "Some 0" 8192]
    by (simp only: e [symmetric])
  have b: "right_encode_spec (8 * 8192) = [0x01, 0x00, 0x00, 0x03]"
    using right_encode_spec_65536 by simp
  have c: "length (right_encode_spec (8 * 8192)) > KMAC_MAX_ENCODED_HEADER_LEN"
    unfolding b by (simp add: KMAC_MAX_ENCODED_HEADER_LEN_def)
  from a b c show ?thesis by (intro conjI)
qed

subsection \<open>The input length as an \<open>int\<close>\<close>

lemma left_encode_spec_2_32:
  "left_encode_spec 4294967296 = [0x05, 0x01, 0x00, 0x00, 0x00, 0x00]"
proof -
  have b: "byte_count_spec 4294967296 = 5" by (simp add: byte_count_spec.simps)
  show ?thesis
    by (simp add: left_encode_spec_def be_digits_def b upt_5)
qed

lemma encode_string_wrapped:
  assumes "length S = 2 ^ 29"
  shows "encode_string (Some S) (2 ^ 29) = Inr (Some ([0x01, 0x00] @ S, 2 ^ 29 + 2))"
proof -
  have bits: "8 * (2 ^ 29 :: c_int) = 0" by simp
  have len: "get_encode_size (scast (0 :: c_int)) = 1"
    by (simp add: get_encode_size_spec byte_count_spec.simps)
  have s: "sint (2 ^ 29 :: c_int) = 2 ^ 29" by simp
  have i: "int (length S) = 2 ^ 29" using assms by simp
  have t: "take (nat (2 ^ 29)) S = S" using assms by simp
  show ?thesis
    unfolding encode_string_def option.case Let_def bits len s i t
    by simp
qed

text \<open>
  The claim as stated, for every byte string, fails where \<open>8 * in_len\<close> leaves the
  \<open>int\<close>: for a string of \<open>2^29\<close> bytes the product is \<open>2^32\<close>, which an \<open>int\<close> holds
  as 0, and the header stored is \<open>01 00\<close>, where \<open>left_encode(2^32)\<close> is
  \<open>05 01 00 00 00 00\<close>.
\<close>

theorem encode_string_layout_counterexample:
  "encode_string (Some (replicate (2 ^ 29) 0)) (of_nat (length (replicate (2 ^ 29) (0 :: byte))))
     = Inr (Some ([0x01, 0x00] @ replicate (2 ^ 29) 0, 2 ^ 29 + 2))
   \<and> left_encode_spec (8 * length (replicate (2 ^ 29) (0 :: byte)))
     = [0x05, 0x01, 0x00, 0x00, 0x00, 0x00]"
proof -
  define S :: bytes where "S = replicate (2 ^ 29) 0"
  have l: "length S = 2 ^ 29" by (simp only: S_def length_replicate)
  have i: "(of_nat (length S) :: c_int) = 2 ^ 29" unfolding l by simp
  have b: "8 * length S = 4294967296" unfolding l by simp
  have "encode_string (Some S) (of_nat (length S)) = Inr (Some ([0x01, 0x00] @ S, 2 ^ 29 + 2))"
    unfolding i using l by (rule encode_string_wrapped)
  moreover have "left_encode_spec (8 * length S) = [0x05, 0x01, 0x00, 0x00, 0x00, 0x00]"
    unfolding b by (rule left_encode_spec_2_32)
  ultimately show ?thesis unfolding S_def by (intro conjI)
qed

end
